theory Spec2Isabelle
  imports Main "HOL-Library.Sublist" "HOL-Library.AList"
begin

section \<open>Python string primitives used by the patch engine\<close>

text \<open>
  Python strings are modelled as \<^typ>\<open>string\<close> (lists of characters). The patch engine
  of \<^verbatim>\<open>src/shared/diff_manager.py\<close> uses four string operations: the substring test
  \<^verbatim>\<open>sub in s\<close>, \<^verbatim>\<open>s.count(sub)\<close>, \<^verbatim>\<open>s.replace(old, new, 1)\<close> and the regular
  expression scan \<^verbatim>\<open>pattern.finditer\<close>.
\<close>

definition str_contains :: "string \<Rightarrow> string \<Rightarrow> bool" where
  \<comment> \<open>\<^verbatim>\<open>sub in s\<close>: \<open>sub\<close> is a contiguous part of \<open>s\<close>.\<close>
  "str_contains s sub = sublist sub s"

text \<open>
  \<^verbatim>\<open>s.count(sub)\<close> counts non-overlapping occurrences from left to right: after an
  occurrence the scan resumes behind it. For the empty \<open>sub\<close> Python returns
  \<open>len(s) + 1\<close>.
\<close>

function count_from :: "string \<Rightarrow> string \<Rightarrow> nat" where
  "count_from sub [] = 0"
| "count_from sub (c # cs) =
     (if sub \<noteq> [] \<and> prefix sub (c # cs)
      then Suc (count_from sub (drop (length sub) (c # cs)))
      else count_from sub cs)"
  by pat_completeness auto
termination
  by (relation "measure (\<lambda>(sub, s). length s)") auto

definition str_count :: "string \<Rightarrow> string \<Rightarrow> nat" where
  "str_count s sub = (if sub = [] then length s + 1 else count_from sub s)"

text \<open>
  \<^verbatim>\<open>s.replace(old, new, 1)\<close> replaces the leftmost occurrence only; with an empty
  \<open>old\<close> it inserts \<open>new\<close> in front; with no occurrence it returns \<open>s\<close>.
\<close>

fun replace_from :: "string \<Rightarrow> string \<Rightarrow> string \<Rightarrow> string" where
  "replace_from old new [] = []"
| "replace_from old new (c # cs) =
     (if prefix old (c # cs) then new @ drop (length old) (c # cs)
      else c # replace_from old new cs)"

definition str_replace1 :: "string \<Rightarrow> string \<Rightarrow> string \<Rightarrow> string" where
  "str_replace1 s old new = (if old = [] then new @ s else replace_from old new s)"

section \<open>The regular expression of \<^verbatim>\<open>DiffManager.apply_diff\<close>\<close>

text \<open>
  The pattern is
  \<^verbatim>\<open><<<<<< SEARCH\n(.*?)\n======\n(.*?)\n>>>>>> REPLACE\<close> compiled with \<^verbatim>\<open>re.DOTALL\<close>.
  It is embedded as the backtracking matcher Python runs: a literal consumes itself and
  hands the rest of the input to its continuation; a lazy group \<^verbatim>\<open>(.*?)\<close> tries the
  continuation first on the current input and consumes one more character (any
  character, since \<^verbatim>\<open>DOTALL\<close> lets the dot match a newline) only when the continuation
  fails.
\<close>

definition lit :: "string \<Rightarrow> (string \<Rightarrow> 'a option) \<Rightarrow> string \<Rightarrow> 'a option" where
  "lit p k s = (if prefix p s then k (drop (length p) s) else None)"

fun lazy_group :: "(string \<Rightarrow> 'a option) \<Rightarrow> string \<Rightarrow> (string \<times> 'a) option" where
  "lazy_group k [] = map_option (Pair []) (k [])"
| "lazy_group k (c # cs) =
     (case k (c # cs) of
        Some r \<Rightarrow> Some ([], r)
      | None \<Rightarrow> map_option (\<lambda>(g, r). (c # g, r)) (lazy_group k cs))"

definition search_open :: string where
  "search_open = ''<<<<<< SEARCH\<newline>''"

definition separator :: string where
  "separator = ''\<newline>======\<newline>''"

definition replace_close :: string where
  "replace_close = ''\<newline>>>>>>> REPLACE''"

definition start_marker :: string where
  \<comment> \<open>the literal of the test \<^verbatim>\<open>"<<<<<< SEARCH" not in diff_content\<close>\<close>
  "start_marker = ''<<<<<< SEARCH''"

definition pattern_match :: "string \<Rightarrow> (string \<times> string \<times> string) option" where
  \<comment> \<open>a match starting at the head of the input: group 1, group 2, the unconsumed rest\<close>
  "pattern_match s =
     lit search_open (lazy_group (lit separator (lazy_group (lit replace_close Some)))) s"

lemma lit_SomeD:
  "lit p k s = Some r \<Longrightarrow> \<exists>s'. s = p @ s' \<and> k s' = Some r"
  by (auto simp: lit_def prefix_def split: if_splits)

lemma lazy_group_SomeD:
  "lazy_group k s = Some (g, r) \<Longrightarrow> \<exists>s'. s = g @ s' \<and> k s' = Some r"
proof (induction s arbitrary: g)
  case Nil
  then show ?case by auto
next
  case (Cons c cs)
  show ?case
  proof (cases "k (c # cs)")
    case (Some r')
    with Cons.prems show ?thesis by auto
  next
    case None
    with Cons.prems obtain g' where g: "g = c # g'" and rec: "lazy_group k cs = Some (g', r)"
      by auto
    from Cons.IH [OF rec] g show ?thesis by auto
  qed
qed

lemma pattern_match_SomeD:
  assumes "pattern_match s = Some (g1, g2, rest)"
  shows "s = search_open @ g1 @ separator @ g2 @ replace_close @ rest"
proof -
  from assms obtain s1 where s1: "s = search_open @ s1"
    and k1: "lazy_group (lit separator (lazy_group (lit replace_close Some))) s1
               = Some (g1, g2, rest)"
    unfolding pattern_match_def by (blast dest: lit_SomeD)
  from lazy_group_SomeD [OF k1] obtain s2 where s2: "s1 = g1 @ s2"
    and k2: "lit separator (lazy_group (lit replace_close Some)) s2 = Some (g2, rest)"
    by blast
  from lit_SomeD [OF k2] obtain s3 where s3: "s2 = separator @ s3"
    and k3: "lazy_group (lit replace_close Some) s3 = Some (g2, rest)"
    by blast
  from lazy_group_SomeD [OF k3] obtain s4 where s4: "s3 = g2 @ s4"
    and k4: "lit replace_close Some s4 = Some rest"
    by blast
  from lit_SomeD [OF k4] have "s4 = replace_close @ rest" by auto
  with s1 s2 s3 s4 show ?thesis by simp
qed

lemma pattern_match_shorter:
  "pattern_match s = Some (g1, g2, rest) \<Longrightarrow> length rest < length s"
  by (drule pattern_match_SomeD) (simp add: search_open_def)

text \<open>
  \<^verbatim>\<open>list(pattern.finditer(diff_content))\<close>: the scan tries a match at the current
  position; on success it records the two groups and resumes behind the match (a match
  is never empty), on failure it moves one character on.
\<close>

function finditer :: "string \<Rightarrow> (string \<times> string) list" where
  "finditer s =
     (case pattern_match s of
        Some (g1, g2, rest) \<Rightarrow> (g1, g2) # finditer rest
      | None \<Rightarrow> (case s of [] \<Rightarrow> [] | c # cs \<Rightarrow> finditer cs))"
  by pat_completeness auto
termination
  by (relation "measure length") (auto dest: pattern_match_shorter)

declare finditer.simps [simp del]

section \<open>\<^verbatim>\<open>DiffManager.apply_diff\<close>\<close>

text \<open>
  The two \<^verbatim>\<open>ValueError\<close>s raised by \<^verbatim>\<open>apply_diff\<close> are the two constructors of
  \<open>patch_error\<close>: \<open>Inl\<close> of one of them is a raise, \<open>Inr\<close> the returned content.
\<close>

datatype patch_error = Ambiguous nat | NotFound string

fun apply_blocks :: "string \<Rightarrow> (string \<times> string) list \<Rightarrow> patch_error + string" where
  "apply_blocks modified_content [] = Inr modified_content"
| "apply_blocks modified_content ((search_block, replace_block) # matches) =
     (if str_contains modified_content search_block then
        (let count = str_count modified_content search_block in
         if count > 1 then Inl (Ambiguous count)
         else apply_blocks (str_replace1 modified_content search_block replace_block) matches)
      else Inl (NotFound search_block))"

definition apply_diff :: "string \<Rightarrow> string \<Rightarrow> patch_error + string" where
  "apply_diff original_content diff_content =
     (let matches = finditer diff_content in
      if matches = [] then
        (if \<not> str_contains diff_content start_marker then Inr diff_content
         else Inr original_content)
      else apply_blocks original_content matches)"

text \<open>
  For the statement about failing patches: the content that the blocks before block \<open>i\<close>
  leave behind, and the number of times Python counts block \<open>i\<close>'s search text in it.
\<close>

definition accumulated :: "string \<Rightarrow> (string \<times> string) list \<Rightarrow> string" where
  "accumulated original bs = foldl (\<lambda>c (s, r). str_replace1 c s r) original bs"

definition occurrences_at :: "string \<Rightarrow> (string \<times> string) list \<Rightarrow> nat \<Rightarrow> nat" where
  "occurrences_at original bs i = str_count (accumulated original (take i bs)) (fst (bs ! i))"

text \<open>
  All positions at which \<open>sub\<close> starts in \<open>s\<close>, overlapping occurrences included
  (\<^verbatim>\<open>str.count\<close> skips an occurrence that overlaps the one before it).
\<close>

definition occurrences :: "string \<Rightarrow> string \<Rightarrow> nat list" where
  "occurrences s sub = filter (\<lambda>i. prefix sub (drop i s)) [0..<Suc (length s)]"

definition occurs_once :: "string \<Rightarrow> string \<Rightarrow> bool" where
  "occurs_once s sub \<longleftrightarrow> length (occurrences s sub) = 1"

section \<open>What lies outside the program\<close>

text \<open>
  \<^verbatim>\<open>src/code_agent/service.py\<close> calls the operating system, git, Python's \<^verbatim>\<open>compile\<close>,
  the \<^verbatim>\<open>ruff\<close> subprocess and the change producer. None of them is part of the program,
  and what they do depends on the machine: every such call is a parameter of the model,
  and every way the call can end is a value.

  A call that raises yields a \<open>py_exception\<close>: a \<^verbatim>\<open>ValueError\<close> (or a subclass, such as
  \<^verbatim>\<open>UnicodeDecodeError\<close>), which the \<^verbatim>\<open>except ValueError\<close> of line 134 catches, or any
  other exception. The string is the text of the exception.
\<close>

datatype py_exception = Value_Error string | Other_Error string

fun exception_text :: "py_exception \<Rightarrow> string" where
  "exception_text (Value_Error m) = m"
| "exception_text (Other_Error m) = m"

text \<open>
  \<^verbatim>\<open>compile\<close> returns, raises \<^verbatim>\<open>SyntaxError\<close> or raises another exception.
  \<^verbatim>\<open>subprocess.run\<close> completes with a return code and standard output, raises
  \<^verbatim>\<open>FileNotFoundError\<close>, or raises another exception.
\<close>

datatype compile_result = Compiled | Syntax_Error string | Other_Exception string

datatype run_result = Completed int string | File_Not_Found_Error | Run_Exception string

text \<open>
  The values of the change set come out of \<^verbatim>\<open>json.loads\<close>, so a payload is any JSON
  value (floating point numbers are left out). A Python dict is an association list in
  insertion order with distinct keys; the keys of a change set are strings.
\<close>

datatype json = JStr string | JInt int | JBool bool | JNull | JList "json list"
  | JDict "(string \<times> json) list"

text \<open>
  The environment of one service object. The type \<open>'fs\<close> is the state of everything
  outside the program: the file system and the git index. Nothing is assumed about it.
  \<^item> \<open>makedirs\<close> is \<^verbatim>\<open>os.makedirs(dir_path, exist_ok=True)\<close>, \<open>write_utf8\<close> is
    \<^verbatim>\<open>open(path, "w", encoding="utf-8")\<close> followed by \<^verbatim>\<open>write\<close>, \<open>index_add\<close> is
    \<^verbatim>\<open>repo_git.index.add([filename])\<close>: each returns the new outside state and the
    exception it raised, if any.
  \<^item> \<open>path_exists\<close> is \<^verbatim>\<open>os.path.exists\<close>; \<open>read_utf8\<close> is \<^verbatim>\<open>open(path, 'r',
    encoding='utf-8')\<close> followed by \<^verbatim>\<open>read\<close>, and \<open>read_locale\<close> the same without the
    encoding argument (line 175).
  \<^item> \<open>compile_source\<close> is \<^verbatim>\<open>compile(source, filename, 'exec')\<close>; \<open>run_ruff\<close> is the
    subprocess call.
  \<^item> \<open>fix_code\<close> is \<^verbatim>\<open>llm_client.fix_code\<close> together with the check that
    \<^verbatim>\<open>changes.update\<close> makes of its answer: it yields the dict to merge, or the exception
    raised by the call or by \<^verbatim>\<open>update\<close> on an answer that is no dict. Its first argument
    is the number of the call, so that it may answer the same request differently each
    time. Answers that bring keys which are not strings are outside the model.
\<close>

record 'fs env =
  local_repo_path :: string
  makedirs :: "'fs \<Rightarrow> string \<Rightarrow> 'fs \<times> py_exception option"
  path_exists :: "'fs \<Rightarrow> string \<Rightarrow> bool"
  read_utf8 :: "'fs \<Rightarrow> string \<Rightarrow> py_exception + string"
  read_locale :: "'fs \<Rightarrow> string \<Rightarrow> py_exception + string"
  write_utf8 :: "'fs \<Rightarrow> string \<Rightarrow> string \<Rightarrow> 'fs \<times> py_exception option"
  index_add :: "'fs \<Rightarrow> string \<Rightarrow> 'fs \<times> py_exception option"
  compile_source :: "string \<Rightarrow> string \<Rightarrow> compile_result"
  run_ruff :: "'fs \<Rightarrow> string \<Rightarrow> run_result"
  fix_code :: "nat \<Rightarrow> (string \<times> json) list \<Rightarrow> string \<Rightarrow> py_exception + (string \<times> json) list"

section \<open>The validator: \<^verbatim>\<open>CodeAgentService.check_code\<close>\<close>

text \<open>
  \<^verbatim>\<open>str.strip()\<close> removes leading and trailing whitespace. A character is a code point
  below 256; these are the ones for which \<^verbatim>\<open>str.isspace\<close> holds.
\<close>

definition isspace :: "char \<Rightarrow> bool" where
  "isspace c \<longleftrightarrow> c \<in> set [CHR 0x09, CHR 0x0A, CHR 0x0B, CHR 0x0C, CHR 0x0D,
                           CHR 0x1C, CHR 0x1D, CHR 0x1E, CHR 0x1F, CHR 0x20,
                           CHR 0x85, CHR 0xA0]"

definition strip :: "string \<Rightarrow> string" where
  "strip s = rev (dropWhile isspace (rev (dropWhile isspace s)))"

text \<open>
  The first \<^verbatim>\<open>try\<close> block: whatever \<^verbatim>\<open>open\<close> or \<^verbatim>\<open>read\<close> raises is caught by
  \<^verbatim>\<open>except Exception\<close>.
\<close>

definition read_and_compile :: "'fs env \<Rightarrow> 'fs \<Rightarrow> string \<Rightarrow> compile_result" where
  "read_and_compile env fs filename =
     (case read_utf8 env fs filename of
        Inl e \<Rightarrow> Other_Exception (exception_text e)
      | Inr source \<Rightarrow> compile_source env source filename)"

text \<open>
  \<^verbatim>\<open>check_code\<close> returns the error message or \<open>None\<close>, paired here with the lines it
  prints.
\<close>

definition check_code :: "'fs env \<Rightarrow> 'fs \<Rightarrow> string \<Rightarrow> string option \<times> string list" where
  "check_code env fs filename =
     (if \<not> suffix ''.py'' filename then (None, [])
      else case read_and_compile env fs filename of
        Syntax_Error e \<Rightarrow> (Some (''SyntaxError in '' @ filename @ '': '' @ e), [])
      | Other_Exception e \<Rightarrow> (Some (''Error reading/compiling '' @ filename @ '': '' @ e), [])
      | Compiled \<Rightarrow>
          (case run_ruff env fs filename of
             Completed returncode stdout \<Rightarrow>
               (if returncode \<noteq> 0 then
                  (if strip stdout \<noteq> [] then
                     (Some (''Linter Errors in '' @ filename @ '':\<newline>'' @ stdout), [])
                   else (None, []))
                else (None, []))
           | File_Not_Found_Error \<Rightarrow>
               (None, [''Warning: ruff not found, skipping lint check for '' @ filename])
           | Run_Exception e \<Rightarrow>
               (None, [''Warning: Error running linter on '' @ filename @ '': '' @ e])))"

section \<open>The repair loop\<close>

text \<open>
  Lines 114 to 127 of \<^verbatim>\<open>validate_and_fix\<close>: a dict is unwrapped once through its
  \<^verbatim>\<open>"content"\<close> key; what is then not a string is skipped.
\<close>

datatype shape = Content string | No_content_key | Not_a_string

definition payload_shape :: "json \<Rightarrow> shape" where
  "payload_shape content =
     (case content of
        JDict d \<Rightarrow>
          (case map_of d ''content'' of
             Some final_content \<Rightarrow>
               (case final_content of JStr s \<Rightarrow> Content s | _ \<Rightarrow> Not_a_string)
           | None \<Rightarrow> No_content_key)
      | JStr s \<Rightarrow> Content s
      | _ \<Rightarrow> Not_a_string)"

text \<open>\<^verbatim>\<open>os.path.join\<close> of two components and \<^verbatim>\<open>os.path.dirname\<close> on a POSIX system.\<close>

definition path_join :: "string \<Rightarrow> string \<Rightarrow> string" where
  "path_join a b =
     (if prefix ''/'' b then b
      else if a = [] \<or> suffix ''/'' a then a @ b
      else a @ ''/'' @ b)"

definition dirname :: "string \<Rightarrow> string" where
  "dirname p =
     (let head = rev (dropWhile (\<lambda>c. c \<noteq> CHR ''/'') (rev p)) in
      if head \<noteq> [] \<and> \<not> list_all (\<lambda>c. c = CHR ''/'') head
      then rev (dropWhile (\<lambda>c. c = CHR ''/'') (rev head))
      else head)"

text \<open>The decimal rendering of the count in the ambiguity message.\<close>

function str_of_nat :: "nat \<Rightarrow> string" where
  "str_of_nat n =
     (if n < 10 then [char_of (48 + n)]
      else str_of_nat (n div 10) @ [char_of (48 + n mod 10)])"
  by pat_completeness auto
termination
  by (relation "measure id") auto

declare str_of_nat.simps [simp del]

fun error_message :: "patch_error \<Rightarrow> string" where
  "error_message (Ambiguous count) =
     ''Search block matches '' @ str_of_nat count @ '' times. Ambiguous update.''"
| "error_message (NotFound search_block) =
     ''Search block not found in content:\<newline>'' @ search_block"

text \<open>
  The state the loop acts on: the outside state and a log of what the loop did, in
  order: the start of an attempt, an entry skipped for its payload shape, a patch that
  failed to apply (with the text of the \<^verbatim>\<open>ValueError\<close>), a file written, a call of
  \<^verbatim>\<open>check_code\<close> with the error it reported, a request to the change producer with the
  names it was asked about. The keys of the log are the keys of the change set.
\<close>

datatype event = Attempt nat | Skipped string | Diff_Error string string | Wrote string
  | Checked string "string option" | Requested "string list"

record 'fs world =
  os :: 'fs
  log :: "event list"

definition emit :: "event \<Rightarrow> 'fs world \<Rightarrow> 'fs world" where
  "emit e w = w\<lparr>log := log w @ [e]\<rparr>"

text \<open>Lines 106 to 111: the parent directory of the target is created first.\<close>

definition ensure_parent :: "'fs env \<Rightarrow> 'fs \<Rightarrow> string \<Rightarrow> 'fs \<times> py_exception option" where
  "ensure_parent env fs full_path =
     (let dir_path = dirname full_path in
      if dir_path \<noteq> [] then makedirs env fs dir_path else (fs, None))"

text \<open>
  Lines 129 to 137: a payload that contains the start marker is applied as a patch to
  the file on disk when that file exists. A \<^verbatim>\<open>ValueError\<close> from reading or from
  \<^verbatim>\<open>apply_diff\<close> is caught and recorded; any other exception leaves the function.
\<close>

datatype resolved = Resolved string | Diff_Failed string | Raised py_exception

definition resolve_content :: "'fs env \<Rightarrow> 'fs \<Rightarrow> string \<Rightarrow> string \<Rightarrow> resolved" where
  "resolve_content env fs full_path final_content =
     (if str_contains final_content start_marker \<and> path_exists env fs full_path then
        (case read_utf8 env fs full_path of
           Inl (Value_Error m) \<Rightarrow> Diff_Failed m
         | Inl (Other_Error m) \<Rightarrow> Raised (Other_Error m)
         | Inr original \<Rightarrow>
             (case apply_diff original final_content of
                Inl e \<Rightarrow> Diff_Failed (error_message e)
              | Inr text \<Rightarrow> Resolved text))
      else Resolved final_content)"

definition failure :: "string option \<Rightarrow> string option" where
  \<comment> \<open>\<^verbatim>\<open>if error:\<close> holds for a string that is not empty; \<open>None\<close> and \<^verbatim>\<open>""\<close> are falsy\<close>
  "failure error = (case error of None \<Rightarrow> None | Some m \<Rightarrow> if m = [] then None else Some m)"

text \<open>Lines 139 to 149: write the file, validate it, stage it when it passes.\<close>

definition write_and_check ::
  "'fs env \<Rightarrow> 'fs world \<Rightarrow> string \<Rightarrow> string \<Rightarrow> string \<Rightarrow> (string \<times> string) list
     \<Rightarrow> 'fs world \<times> (py_exception + (string \<times> string) list)" where
  "write_and_check env w filename full_path final_content files_with_errors =
     (case write_utf8 env (os w) full_path final_content of
        (fs2, Some e) \<Rightarrow> (w\<lparr>os := fs2\<rparr>, Inl e)
      | (fs2, None) \<Rightarrow>
          (let error = failure (fst (check_code env fs2 full_path));
               w2 = emit (Checked filename error) (emit (Wrote filename) (w\<lparr>os := fs2\<rparr>))
           in case error of
                Some err \<Rightarrow> (w2, Inr (files_with_errors @ [(filename, err)]))
              | None \<Rightarrow>
                  (case index_add env fs2 filename of
                     (fs3, Some e) \<Rightarrow> (w2\<lparr>os := fs3\<rparr>, Inl e)
                   | (fs3, None) \<Rightarrow> (w2\<lparr>os := fs3\<rparr>, Inr files_with_errors))))"

text \<open>
  One iteration of the \<^verbatim>\<open>for filename, content in changes.items()\<close> loop. The result
  is the state reached and either the exception that left the loop or the failure list.
\<close>

definition process_entry ::
  "'fs env \<Rightarrow> 'fs world \<times> (string \<times> string) list \<Rightarrow> string \<times> json
     \<Rightarrow> 'fs world \<times> (py_exception + (string \<times> string) list)" where
  "process_entry env st entry =
     (case st of (w, files_with_errors) \<Rightarrow>
      case entry of (filename, content) \<Rightarrow>
       (let full_path = path_join (local_repo_path env) filename in
        case ensure_parent env (os w) full_path of
          (fs1, Some e) \<Rightarrow> (w\<lparr>os := fs1\<rparr>, Inl e)
        | (fs1, None) \<Rightarrow>
            (case payload_shape content of
               No_content_key \<Rightarrow> (emit (Skipped filename) (w\<lparr>os := fs1\<rparr>), Inr files_with_errors)
             | Not_a_string \<Rightarrow> (emit (Skipped filename) (w\<lparr>os := fs1\<rparr>), Inr files_with_errors)
             | Content final_content \<Rightarrow>
                 (case resolve_content env fs1 full_path final_content of
                    Raised e \<Rightarrow> (w\<lparr>os := fs1\<rparr>, Inl e)
                  | Diff_Failed msg \<Rightarrow>
                      (emit (Diff_Error filename msg) (w\<lparr>os := fs1\<rparr>),
                       Inr (files_with_errors @ [(filename, ''Diff Application Error: '' @ msg)]))
                  | Resolved text \<Rightarrow>
                      write_and_check env (w\<lparr>os := fs1\<rparr>) filename full_path text
                        files_with_errors))))"

fun process_entries ::
  "'fs env \<Rightarrow> 'fs world \<Rightarrow> (string \<times> string) list \<Rightarrow> (string \<times> json) list
     \<Rightarrow> 'fs world \<times> (py_exception + (string \<times> string) list)" where
  "process_entries env w files_with_errors [] = (w, Inr files_with_errors)"
| "process_entries env w files_with_errors (entry # rest) =
     (case process_entry env (w, files_with_errors) entry of
        (w', Inl e) \<Rightarrow> (w', Inl e)
      | (w', Inr files_with_errors') \<Rightarrow> process_entries env w' files_with_errors' rest)"

definition run_attempt ::
  "'fs env \<Rightarrow> nat \<Rightarrow> (string \<times> json) list \<Rightarrow> 'fs world
     \<Rightarrow> 'fs world \<times> (py_exception + (string \<times> string) list)" where
  "run_attempt env retry_count changes w =
     process_entries env (emit (Attempt (retry_count + 1)) w) [] changes"

text \<open>Lines 162 to 184: the report, the broken files read back, the request, the merge.\<close>

definition error_report :: "(string \<times> string) list \<Rightarrow> string" where
  "error_report files_with_errors =
     foldl (\<lambda>report (fname, err). report @ ''File: '' @ fname @ ''\<newline>Error: '' @ err @ ''\<newline>'')
       ''The code has syntax or linter errors:\<newline>'' files_with_errors"

definition dict_get :: "(string \<times> json) list \<Rightarrow> string \<Rightarrow> json \<Rightarrow> json" where
  "dict_get d k dflt = (case map_of d k of Some v \<Rightarrow> v | None \<Rightarrow> dflt)"

fun read_broken ::
  "'fs env \<Rightarrow> (string \<times> json) list \<Rightarrow> 'fs \<Rightarrow> (string \<times> json) list \<Rightarrow> (string \<times> string) list
     \<Rightarrow> py_exception + (string \<times> json) list" where
  "read_broken env changes fs current_broken_code [] = Inr current_broken_code"
| "read_broken env changes fs current_broken_code ((fname, err) # rest) =
     (let full_path = path_join (local_repo_path env) fname in
      if path_exists env fs full_path then
        (case read_locale env fs full_path of
           Inl e \<Rightarrow> Inl e
         | Inr text \<Rightarrow>
             read_broken env changes fs (AList.update fname (JStr text) current_broken_code) rest)
      else read_broken env changes fs
             (AList.update fname (dict_get changes fname (JStr '''')) current_broken_code) rest)"

definition dict_update :: "(string \<times> json) list \<Rightarrow> (string \<times> json) list \<Rightarrow> (string \<times> json) list" where
  "dict_update d other = foldl (\<lambda>d (k, v). AList.update k v d) d other"

definition request_fixes ::
  "'fs env \<Rightarrow> nat \<Rightarrow> (string \<times> json) list \<Rightarrow> 'fs world \<Rightarrow> (string \<times> string) list
     \<Rightarrow> 'fs world \<times> (py_exception + (string \<times> json) list)" where
  "request_fixes env retry_count changes w files_with_errors =
     (case read_broken env changes (os w) [] files_with_errors of
        Inl e \<Rightarrow> (w, Inl e)
      | Inr current_broken_code \<Rightarrow>
          (let w1 = emit (Requested (map fst current_broken_code)) w in
           case fix_code env retry_count current_broken_code (error_report files_with_errors) of
             Inl e \<Rightarrow> (w1, Inl e)
           | Inr fixed_changes \<Rightarrow> (w1, Inr (dict_update changes fixed_changes))))"

text \<open>
  The \<^verbatim>\<open>while retry_count < max_retries\<close> loop. It terminates because
  \<open>max_retries - retry_count\<close> decreases with every iteration. Its result is the state
  reached and either the exception that left \<^verbatim>\<open>validate_and_fix\<close> or the boolean
  returned.
\<close>

function attempt_loop ::
  "'fs env \<Rightarrow> nat \<Rightarrow> nat \<Rightarrow> (string \<times> json) list \<Rightarrow> 'fs world \<Rightarrow> 'fs world \<times> (py_exception + bool)" where
  "attempt_loop env max_retries retry_count changes w =
     (if retry_count < max_retries then
        (case run_attempt env retry_count changes w of
           (w1, Inl e) \<Rightarrow> (w1, Inl e)
         | (w1, Inr files_with_errors) \<Rightarrow>
             if files_with_errors = [] then (w1, Inr True)
             else if retry_count + 1 \<ge> max_retries then (w1, Inr False)
             else (case request_fixes env (retry_count + 1) changes w1 files_with_errors of
                     (w2, Inl e) \<Rightarrow> (w2, Inl e)
                   | (w2, Inr changes') \<Rightarrow>
                       attempt_loop env max_retries (retry_count + 1) changes' w2))
      else (w, Inr False))"
  by pat_completeness auto
termination
  by (relation "measure (\<lambda>(env, max_retries, retry_count, changes, w). max_retries - retry_count)") auto

declare attempt_loop.simps [simp del]

definition validate_and_fix ::
  "'fs env \<Rightarrow> (string \<times> json) list \<Rightarrow> 'fs world \<Rightarrow> 'fs world \<times> (py_exception + bool)" where
  "validate_and_fix env changes w =
     (let max_retries = 3; retry_count = 0 in
      if changes = [] then (w, Inr False)
      else attempt_loop env max_retries retry_count changes w)"

section \<open>A small outside world for concrete runs\<close>

text \<open>
  The statements below hold for every environment. The concrete runs use this one: files
  by path, a list of directories and the git index. Creating a directory where a file is
  raises, reading translates line ends as Python's text mode does, writing to a directory
  raises, and staging always works.
\<close>

record disk =
  files :: "string \<rightharpoonup> string"
  dirs :: "string list"
  index :: "string list"

fun universal_newlines :: "string \<Rightarrow> string" where
  "universal_newlines [] = []"
| "universal_newlines (c # cs) =
     (if c = CHR 0x0D then
        CHR 0x0A # (case cs of
                      [] \<Rightarrow> []
                    | d # ds \<Rightarrow> if d = CHR 0x0A then universal_newlines ds
                                else universal_newlines cs)
      else c # universal_newlines cs)"

definition disk_makedirs :: "disk \<Rightarrow> string \<Rightarrow> disk \<times> py_exception option" where
  "disk_makedirs d p =
     (if files d p \<noteq> None then (d, Some (Other_Error (''[Errno 17] File exists: '' @ p)))
      else (d\<lparr>dirs := List.insert p (dirs d)\<rparr>, None))"

definition disk_exists :: "disk \<Rightarrow> string \<Rightarrow> bool" where
  "disk_exists d p \<longleftrightarrow> files d p \<noteq> None \<or> p \<in> set (dirs d)"

definition disk_read :: "disk \<Rightarrow> string \<Rightarrow> py_exception + string" where
  "disk_read d p =
     (case files d p of
        Some text \<Rightarrow> Inr (universal_newlines text)
      | None \<Rightarrow>
          (if p \<in> set (dirs d) then Inl (Other_Error (''[Errno 21] Is a directory: '' @ p))
           else Inl (Other_Error (''[Errno 2] No such file or directory: '' @ p))))"

definition disk_write :: "disk \<Rightarrow> string \<Rightarrow> string \<Rightarrow> disk \<times> py_exception option" where
  "disk_write d p text =
     (if p \<in> set (dirs d) then (d, Some (Other_Error (''[Errno 21] Is a directory: '' @ p)))
      else (d\<lparr>files := (files d)(p \<mapsto> text)\<rparr>, None))"

definition disk_index_add :: "disk \<Rightarrow> string \<Rightarrow> disk \<times> py_exception option" where
  "disk_index_add d filename = (d\<lparr>index := index d @ [filename]\<rparr>, None)"

text \<open>
  Environments over it: a compiler that rejects one source text; a linter that is not
  installed, exits with a given code and output, or cannot be run; a producer that
  repairs \<^verbatim>\<open>b.py\<close> at its first call, or proposes nothing.
\<close>

definition env_no_ruff :: "disk env" where
  "env_no_ruff =
     \<lparr>local_repo_path = ''/w'',
      makedirs = disk_makedirs,
      path_exists = disk_exists,
      read_utf8 = disk_read,
      read_locale = disk_read,
      write_utf8 = disk_write,
      index_add = disk_index_add,
      compile_source = (\<lambda>source filename.
         if source = ''def bad_syntax('' then Syntax_Error ''unexpected EOF'' else Compiled),
      run_ruff = (\<lambda>fs filename. File_Not_Found_Error),
      fix_code = (\<lambda>n broken report.
         Inr (if n = 1 then [(''b.py'', JStr ''print(1)'')] else []))\<rparr>"

definition env_ruff :: "int \<Rightarrow> string \<Rightarrow> disk env" where
  "env_ruff returncode stdout = env_no_ruff\<lparr>run_ruff := (\<lambda>fs filename. Completed returncode stdout)\<rparr>"

definition env_ruff_crash :: "disk env" where
  "env_ruff_crash = env_no_ruff\<lparr>run_ruff := (\<lambda>fs filename. Run_Exception ''Permission denied'')\<rparr>"

definition env_silent :: "disk env" where
  "env_silent = env_no_ruff\<lparr>fix_code := (\<lambda>n broken report. Inr [])\<rparr>"

definition disk_with :: "(string \<times> string) list \<Rightarrow> disk" where
  "disk_with fs = \<lparr>files = map_of fs, dirs = [''/w''], index = []\<rparr>"

definition world_with :: "(string \<times> string) list \<Rightarrow> disk world" where
  "world_with fs = \<lparr>os = disk_with fs, log = []\<rparr>"

text \<open>
  What a stretch of the run added to the log, the number of attempts a log records, and
  the failures a stretch of the log records: a patch that did not apply, or a file that
  \<^verbatim>\<open>check_code\<close> rejected.
\<close>

definition new_events :: "'fs world \<Rightarrow> 'fs world \<Rightarrow> event list" where
  "new_events w w' = drop (length (log w)) (log w')"

fun is_attempt :: "event \<Rightarrow> bool" where
  "is_attempt (Attempt n) = True"
| "is_attempt _ = False"

definition attempts :: "'fs world \<Rightarrow> nat" where
  "attempts w = length (filter is_attempt (log w))"

fun is_failure :: "event \<Rightarrow> bool" where
  "is_failure (Diff_Error f m) = True"
| "is_failure (Checked f (Some m)) = True"
| "is_failure _ = False"

fun failures_of :: "event list \<Rightarrow> (string \<times> string) list" where
  "failures_of [] = []"
| "failures_of (Diff_Error f m # es) = (f, ''Diff Application Error: '' @ m) # failures_of es"
| "failures_of (Checked f (Some m) # es) = (f, m) # failures_of es"
| "failures_of (e # es) = failures_of es"

text \<open>
  For the statement about the outcome of a session: the state with which attempt
  \<open>r + 1\<close> starts when every attempt before it has failed and no exception has left the
  loop (or else the exception and the state it left behind); the result of that attempt,
  an exception or its failure list (\<^verbatim>\<open>files_with_errors\<close>); and what the attempt added
  to the log.
\<close>

fun session_state ::
  "'fs env \<Rightarrow> (string \<times> json) list \<Rightarrow> 'fs world \<Rightarrow> nat
     \<Rightarrow> 'fs world \<times> (py_exception + (string \<times> json) list)" where
  "session_state env changes w 0 = (w, Inr changes)"
| "session_state env changes w (Suc r) =
     (case session_state env changes w r of
        (w', Inl e) \<Rightarrow> (w', Inl e)
      | (w', Inr c) \<Rightarrow>
          (case run_attempt env r c w' of
             (w1, Inl e) \<Rightarrow> (w1, Inl e)
           | (w1, Inr files_with_errors) \<Rightarrow> request_fixes env (Suc r) c w1 files_with_errors))"

definition attempt_result ::
  "'fs env \<Rightarrow> (string \<times> json) list \<Rightarrow> 'fs world \<Rightarrow> nat \<Rightarrow> py_exception + (string \<times> string) list" where
  "attempt_result env changes w r =
     (case session_state env changes w r of
        (w', Inl e) \<Rightarrow> Inl e
      | (w', Inr c) \<Rightarrow> snd (run_attempt env r c w'))"

definition attempt_events ::
  "'fs env \<Rightarrow> (string \<times> json) list \<Rightarrow> 'fs world \<Rightarrow> nat \<Rightarrow> event list" where
  "attempt_events env changes w r =
     (case session_state env changes w r of
        (w', Inl e) \<Rightarrow> []
      | (w', Inr c) \<Rightarrow> new_events w' (fst (run_attempt env r c w')))"

text \<open>A change set with a text file and a Python file that does not compile.\<close>

definition two_files :: "(string \<times> json) list" where
  "two_files = [(''a.txt'', JStr ''hello''), (''b.py'', JStr ''def bad_syntax('')]"

section \<open>Facts about the string primitives\<close>

lemma count_from_zero_iff:
  "sub \<noteq> [] \<Longrightarrow> count_from sub s = 0 \<longleftrightarrow> \<not> sublist sub s"
proof (induction sub s rule: count_from.induct)
  case (1 sub)
  then show ?case by simp
next
  case (2 sub c cs)
  show ?case
  proof (cases "prefix sub (c # cs)")
    case True
    then have "sublist sub (c # cs)" by (rule prefix_imp_sublist)
    with True "2.prems" show ?thesis by simp
  next
    case False
    with 2 show ?thesis by (simp add: sublist_Cons_right)
  qed
qed

lemma str_contains_iff_count: "str_contains s sub \<longleftrightarrow> 1 \<le> str_count s sub"
proof (cases "sub = []")
  case True
  then show ?thesis by (simp add: str_contains_def str_count_def)
next
  case False
  from count_from_zero_iff [OF False, of s] show ?thesis
    by (auto simp: str_contains_def str_count_def False Suc_le_eq)
qed

lemma first_occurrence:
  assumes "sub \<noteq> []" and "sublist sub s"
  shows "\<exists>pre post. s = pre @ sub @ post
           \<and> (\<forall>pre' post'. s = pre' @ sub @ post' \<longrightarrow> length pre \<le> length pre')
           \<and> replace_from sub new s = pre @ new @ post
           \<and> count_from sub s = Suc (count_from sub post)"
  using assms(2)
proof (induction s)
  case Nil
  with assms(1) show ?case by simp
next
  case (Cons c cs)
  show ?case
  proof (cases "prefix sub (c # cs)")
    case True
    then obtain post where post: "c # cs = sub @ post" by (auto simp: prefix_def)
    then have d: "drop (length sub) (c # cs) = post" by (metis append_eq_conv_conj)
    have "c # cs = [] @ sub @ post" using post by simp
    moreover have "replace_from sub new (c # cs) = [] @ new @ post"
      using True d by simp
    moreover have "count_from sub (c # cs) = Suc (count_from sub post)"
      using True d assms(1) by simp
    ultimately show ?thesis by (metis list.size(3) le0)
  next
    case False
    with Cons.prems have "sublist sub cs" by (simp add: sublist_Cons_right)
    from Cons.IH [OF this] obtain pre post where cs: "cs = pre @ sub @ post"
      and least: "\<forall>pre' post'. cs = pre' @ sub @ post' \<longrightarrow> length pre \<le> length pre'"
      and rep: "replace_from sub new cs = pre @ new @ post"
      and cnt: "count_from sub cs = Suc (count_from sub post)"
      by blast
    have least': "length (c # pre) \<le> length pre'" if d: "c # cs = pre' @ sub @ post'" for pre' post'
    proof (cases pre')
      case Nil
      with d have "prefix sub (c # cs)" by (simp add: prefix_def)
      with False show ?thesis by simp
    next
      case (Cons a pre'')
      with d have "cs = pre'' @ sub @ post'" by simp
      with least have "length pre \<le> length pre''" by blast
      with Cons show ?thesis by simp
    qed
    have "c # cs = (c # pre) @ sub @ post" using cs by simp
    moreover have "replace_from sub new (c # cs) = (c # pre) @ new @ post"
      using False rep by simp
    moreover have "count_from sub (c # cs) = Suc (count_from sub post)"
      using False cnt by simp
    ultimately show ?thesis using least' by blast
  qed
qed

lemma single_occurrence:
  assumes "str_count s sub = 1"
  shows "\<exists>pre post. s = pre @ sub @ post
           \<and> (\<forall>pre' post'. s = pre' @ sub @ post' \<longrightarrow> length pre \<le> length pre')
           \<and> str_replace1 s sub new = pre @ new @ post
           \<and> (sub \<noteq> [] \<longrightarrow> \<not> str_contains pre sub \<and> \<not> str_contains post sub)"
proof (cases "sub = []")
  case True
  with assms have "s = []" by (simp add: str_count_def)
  with True show ?thesis by (simp add: str_replace1_def)
next
  case False
  from assms False have "count_from sub s = 1" by (simp add: str_count_def)
  then have "sublist sub s" using count_from_zero_iff [OF False, of s] by simp
  from first_occurrence [OF False this, of new] obtain pre post where s: "s = pre @ sub @ post"
    and least: "\<forall>pre' post'. s = pre' @ sub @ post' \<longrightarrow> length pre \<le> length pre'"
    and rep: "replace_from sub new s = pre @ new @ post"
    and cnt: "count_from sub s = Suc (count_from sub post)"
    by blast
  from cnt \<open>count_from sub s = 1\<close> have "count_from sub post = 0" by simp
  then have post: "\<not> sublist sub post" using count_from_zero_iff [OF False] by simp
  have pre: "\<not> sublist sub pre"
  proof
    assume "sublist sub pre"
    then obtain a b where "pre = a @ sub @ b" by (auto simp: sublist_def)
    with s have "s = a @ sub @ (b @ sub @ post)" by simp
    with least have "length pre \<le> length a" by blast
    with \<open>pre = a @ sub @ b\<close> False show False by simp
  qed
  from s least rep pre post False show ?thesis
    by (auto simp: str_replace1_def str_contains_def)
qed

section \<open>Facts about the block scan\<close>

lemma finditer_nonempty_open:
  "finditer s \<noteq> [] \<Longrightarrow> sublist search_open s"
proof (induction s rule: finditer.induct)
  case (1 s)
  show ?case
  proof (cases "pattern_match s")
    case (Some m)
    obtain g1 g2 rest where m: "m = (g1, g2, rest)" by (cases m) auto
    from pattern_match_SomeD [OF Some [unfolded m]] show ?thesis
      by (metis append_Nil sublist_appendI)
  next
    case None
    show ?thesis
    proof (cases s)
      case Nil
      with None "1.prems" show ?thesis by (simp add: finditer.simps)
    next
      case (Cons c cs)
      with None "1.prems" have "finditer cs \<noteq> []" by (simp add: finditer.simps)
      with "1.IH"(1) [OF None Cons] have "sublist search_open cs" .
      with Cons show ?thesis by (simp add: sublist_Cons_right)
    qed
  qed
qed

lemma start_marker_in_open: "sublist start_marker search_open"
  unfolding sublist_def start_marker_def search_open_def
  by (rule exI [of _ "[]"], rule exI [of _ "''\<newline>''"]) simp

lemma no_marker_no_blocks:
  "\<not> str_contains s start_marker \<Longrightarrow> finditer s = []"
  using finditer_nonempty_open [of s] start_marker_in_open
  by (auto simp: str_contains_def dest: sublist_order.order_trans)

text \<open>
  The scan is adequate: it finds no block exactly when the payload nowhere holds the
  search-open line, a body, the separator line, a body and the replace-close line in
  this order.
\<close>

lemma lit_append: "lit p k (p @ s) = k s"
  by (simp add: lit_def)

lemma lazy_group_complete:
  "k s' = Some r \<Longrightarrow> \<exists>m. lazy_group k (g @ s') = Some m"
proof (induction g)
  case Nil
  then show ?case by (cases s') auto
next
  case (Cons c g)
  then obtain m where "lazy_group k (g @ s') = Some m" by blast
  then show ?case by (cases "k (c # g @ s')") auto
qed

lemma pattern_match_complete:
  "\<exists>m. pattern_match (search_open @ g1 @ separator @ g2 @ replace_close @ b) = Some m"
proof -
  have "lit replace_close Some (replace_close @ b) = Some b" by (rule lit_append)
  from lazy_group_complete [where k = "lit replace_close Some" and s' = "replace_close @ b"
      and g = g2, OF this]
  obtain m2 where "lazy_group (lit replace_close Some) (g2 @ replace_close @ b) = Some m2" by blast
  then have "lit separator (lazy_group (lit replace_close Some))
               (separator @ g2 @ replace_close @ b) = Some m2"
    by (simp add: lit_append)
  from lazy_group_complete [where k = "lit separator (lazy_group (lit replace_close Some))"
      and s' = "separator @ g2 @ replace_close @ b" and g = g1, OF this]
  obtain m1 where "lazy_group (lit separator (lazy_group (lit replace_close Some)))
               (g1 @ separator @ g2 @ replace_close @ b) = Some m1" by blast
  then have "pattern_match (search_open @ g1 @ separator @ g2 @ replace_close @ b) = Some m1"
    by (simp only: pattern_match_def lit_append)
  then show ?thesis by (rule exI)
qed

lemma finditer_complete:
  "pattern_match m = Some x \<Longrightarrow> finditer (a @ m) \<noteq> []"
proof (induction a)
  case Nil
  then show ?case by (cases x) (simp add: finditer.simps [of m])
next
  case (Cons c a)
  then have ih: "finditer (a @ m) \<noteq> []" by blast
  show ?case
  proof (cases "pattern_match (c # a @ m)")
    case None
    with ih show ?thesis by (simp add: finditer.simps [of "c # a @ m"])
  next
    case (Some y)
    then show ?thesis by (cases y) (simp add: finditer.simps [of "c # a @ m"])
  qed
qed

lemma finditer_nonempty_block:
  "finditer s \<noteq> [] \<Longrightarrow>
     \<exists>a g1 g2 b. s = a @ search_open @ g1 @ separator @ g2 @ replace_close @ b"
proof (induction s rule: finditer.induct)
  case (1 s)
  show ?case
  proof (cases "pattern_match s")
    case (Some m)
    obtain g1 g2 rest where m: "m = (g1, g2, rest)" by (cases m) auto
    from pattern_match_SomeD [OF Some [unfolded m]] show ?thesis
      by (metis append_Nil)
  next
    case None
    show ?thesis
    proof (cases s)
      case Nil
      with None "1.prems" show ?thesis by (simp add: finditer.simps)
    next
      case (Cons c cs)
      with None "1.prems" have "finditer cs \<noteq> []" by (simp add: finditer.simps)
      with "1.IH"(1) [OF None Cons] obtain a g1 g2 b
        where "cs = a @ search_open @ g1 @ separator @ g2 @ replace_close @ b" by blast
      with Cons have "s = (c # a) @ search_open @ g1 @ separator @ g2 @ replace_close @ b"
        by simp
      then show ?thesis by blast
    qed
  qed
qed

lemma finditer_Nil_iff:
  "finditer s = [] \<longleftrightarrow>
     \<not> (\<exists>a g1 g2 b. s = a @ search_open @ g1 @ separator @ g2 @ replace_close @ b)"
proof
  assume "finditer s = []"
  show "\<not> (\<exists>a g1 g2 b. s = a @ search_open @ g1 @ separator @ g2 @ replace_close @ b)"
  proof
    assume "\<exists>a g1 g2 b. s = a @ search_open @ g1 @ separator @ g2 @ replace_close @ b"
    then obtain a g1 g2 b where s: "s = a @ search_open @ g1 @ separator @ g2 @ replace_close @ b"
      by blast
    from pattern_match_complete [of g1 g2 b] obtain m
      where "pattern_match (search_open @ g1 @ separator @ g2 @ replace_close @ b) = Some m"
      by blast
    from finditer_complete [OF this, of a] s \<open>finditer s = []\<close> show False by simp
  qed
next
  assume "\<not> (\<exists>a g1 g2 b. s = a @ search_open @ g1 @ separator @ g2 @ replace_close @ b)"
  with finditer_nonempty_block [of s] show "finditer s = []" by blast
qed

text \<open>
  Claim C6. A payload that nowhere contains the text \<^verbatim>\<open><<<<<< SEARCH\<close> is returned
  verbatim, whatever the original content is: the scan finds no block (every match
  starts with that text), and the fallback branch returns the payload.
\<close>

theorem apply_diff_no_marker:
  assumes "\<not> str_contains payload start_marker"
  shows "apply_diff original payload = Inr payload"
  using assms no_marker_no_blocks [OF assms] by (simp add: apply_diff_def)

text \<open>The payload of \<^verbatim>\<open>test_apply_diff_full_replacement\<close>.\<close>

theorem apply_diff_no_marker_witness:
  "\<not> str_contains ''line1_mod\<newline>'' start_marker
   \<and> apply_diff ''line1\<newline>'' ''line1_mod\<newline>'' = Inr ''line1_mod\<newline>''"
proof -
  have h: "\<not> str_contains ''line1_mod\<newline>'' start_marker" by code_simp
  from h apply_diff_no_marker [OF h] show ?thesis by simp
qed

text \<open>
  Claim C7. A payload that contains the text \<^verbatim>\<open><<<<<< SEARCH\<close> but in which the scan
  finds no block leaves the original content as the result; the payload is not
  returned in its place.
\<close>

theorem apply_diff_marker_without_blocks:
  assumes "str_contains payload start_marker" and "finditer payload = []"
  shows "apply_diff original payload = Inr original"
  using assms by (simp add: apply_diff_def)

text \<open>A block that lacks its separator line.\<close>

theorem apply_diff_marker_without_blocks_witness:
  "str_contains ''<<<<<< SEARCH\<newline>a\<newline>>>>>>> REPLACE'' start_marker
   \<and> finditer ''<<<<<< SEARCH\<newline>a\<newline>>>>>>> REPLACE'' = []
   \<and> apply_diff ''abc'' ''<<<<<< SEARCH\<newline>a\<newline>>>>>>> REPLACE'' = Inr ''abc''"
proof -
  have h1: "str_contains ''<<<<<< SEARCH\<newline>a\<newline>>>>>>> REPLACE'' start_marker" by code_simp
  have h2: "finditer ''<<<<<< SEARCH\<newline>a\<newline>>>>>>> REPLACE'' = []" by code_simp
  from h1 h2 apply_diff_marker_without_blocks [OF h1 h2] show ?thesis by simp
qed

text \<open>
  Claim C1, as amended. When the payload parses to the single block \<open>(S, R)\<close> and Python
  counts exactly one occurrence of \<open>S\<close> in the original content, \<^verbatim>\<open>apply_diff\<close>
  returns the original with the leftmost occurrence of \<open>S\<close> replaced by \<open>R\<close>. For a
  non-empty \<open>S\<close>, neither the text before the replaced occurrence nor the text after it
  contains \<open>S\<close>; so an occurrence of \<open>S\<close> in the result involves \<open>R\<close> or the place where
  \<open>R\<close> meets its neighbours.
\<close>

theorem apply_diff_single_block:
  assumes "finditer payload = [(S, R)]" and "str_count original S = 1"
  shows "\<exists>pre post. original = pre @ S @ post
           \<and> (\<forall>pre' post'. original = pre' @ S @ post' \<longrightarrow> length pre \<le> length pre')
           \<and> apply_diff original payload = Inr (pre @ R @ post)
           \<and> (S \<noteq> [] \<longrightarrow> \<not> str_contains pre S \<and> \<not> str_contains post S)"
proof -
  from assms(2) have "str_contains original S" by (simp add: str_contains_iff_count)
  with assms have "apply_diff original payload = Inr (str_replace1 original S R)"
    by (simp add: apply_diff_def)
  with single_occurrence [OF assms(2), of R] show ?thesis by auto
qed

text \<open>The input of \<^verbatim>\<open>test_apply_diff_single_block\<close>.\<close>

theorem apply_diff_single_block_witness:
  "finditer ''<<<<<< SEARCH\<newline>line2\<newline>======\<newline>line2_modified\<newline>>>>>>> REPLACE'' = [(''line2'', ''line2_modified'')]
   \<and> str_count ''line1\<newline>line2\<newline>line3\<newline>'' ''line2'' = 1
   \<and> apply_diff ''line1\<newline>line2\<newline>line3\<newline>''
        ''<<<<<< SEARCH\<newline>line2\<newline>======\<newline>line2_modified\<newline>>>>>>> REPLACE''
       = Inr ''line1\<newline>line2_modified\<newline>line3\<newline>''"
proof -
  have h1: "finditer ''<<<<<< SEARCH\<newline>line2\<newline>======\<newline>line2_modified\<newline>>>>>>> REPLACE'' = [(''line2'', ''line2_modified'')]"
    by code_simp
  have h2: "str_count ''line1\<newline>line2\<newline>line3\<newline>'' ''line2'' = 1" by code_simp
  from apply_diff_single_block [OF h1 h2] obtain pre post
    where o: "''line1\<newline>line2\<newline>line3\<newline>'' = pre @ ''line2'' @ post"
      and r: "apply_diff ''line1\<newline>line2\<newline>line3\<newline>''
        ''<<<<<< SEARCH\<newline>line2\<newline>======\<newline>line2_modified\<newline>>>>>>> REPLACE'' = Inr (pre @ ''line2_modified'' @ post)"
    by blast
  have "apply_diff ''line1\<newline>line2\<newline>line3\<newline>''
        ''<<<<<< SEARCH\<newline>line2\<newline>======\<newline>line2_modified\<newline>>>>>>> REPLACE''
       = Inr ''line1\<newline>line2_modified\<newline>line3\<newline>''" by code_simp
  with h1 h2 r show ?thesis by simp
qed

text \<open>
  Claim C1 as stated also promises that the result contains \<open>S\<close> only if \<open>R\<close> itself
  contains it. In \<^verbatim>\<open>aab\<close> the text \<^verbatim>\<open>ab\<close> occurs once; replacing it by \<^verbatim>\<open>b\<close> gives
  \<^verbatim>\<open>ab\<close>, which contains \<^verbatim>\<open>ab\<close> although \<^verbatim>\<open>b\<close> does not.
\<close>

theorem apply_diff_single_block_counterexample:
  "finditer ''<<<<<< SEARCH\<newline>ab\<newline>======\<newline>b\<newline>>>>>>> REPLACE'' = [(''ab'', ''b'')]
   \<and> str_count ''aab'' ''ab'' = 1
   \<and> apply_diff ''aab'' ''<<<<<< SEARCH\<newline>ab\<newline>======\<newline>b\<newline>>>>>>> REPLACE'' = Inr ''ab''
   \<and> str_contains ''ab'' ''ab''
   \<and> \<not> str_contains ''b'' ''ab''"
  by code_simp

section \<open>Failing patches\<close>

lemma occurrences_at_0: "occurrences_at c ((s, r) # bs) 0 = str_count c s"
  by (simp add: occurrences_at_def accumulated_def)

lemma occurrences_at_Suc:
  "occurrences_at c ((s, r) # bs) (Suc i) = occurrences_at (str_replace1 c s r) bs i"
  by (simp add: occurrences_at_def accumulated_def)

lemma all_less_Suc_shift: "(\<forall>i<Suc n. P i) \<longleftrightarrow> P 0 \<and> (\<forall>i<n. P (Suc i))"
  by (metis less_Suc_eq_0_disj)

lemma apply_blocks_Inr_iff:
  "apply_blocks c bs = Inr c' \<longleftrightarrow>
     (\<forall>i<length bs. occurrences_at c bs i = 1) \<and> c' = accumulated c bs"
proof (induction bs arbitrary: c)
  case Nil
  then show ?case by (auto simp: accumulated_def)
next
  case (Cons b bs)
  obtain s r where b: "b = (s, r)" by (cases b)
  have acc: "accumulated c (b # bs) = accumulated (str_replace1 c s r) bs"
    by (simp add: accumulated_def b)
  show ?case
  proof (cases "str_count c s = 1")
    case True
    then have "str_contains c s" by (simp add: str_contains_iff_count)
    with True have "apply_blocks c (b # bs) = apply_blocks (str_replace1 c s r) bs"
      by (simp add: b)
    with Cons.IH [of "str_replace1 c s r"] True acc show ?thesis
      by (simp add: b all_less_Suc_shift occurrences_at_0 occurrences_at_Suc)
  next
    case False
    then have "apply_blocks c (b # bs) \<noteq> Inr c'"
      by (auto simp: b str_contains_iff_count Let_def)
    moreover from False have "\<not> (\<forall>i<length (b # bs). occurrences_at c (b # bs) i = 1)"
      by (auto simp: b occurrences_at_0 intro!: exI [of _ 0])
    ultimately show ?thesis by blast
  qed
qed

lemma apply_blocks_Inl:
  "apply_blocks c bs = Inl e \<Longrightarrow>
     \<exists>i<length bs. (\<forall>j<i. occurrences_at c bs j = 1)
        \<and> (occurrences_at c bs i = 0 \<and> e = NotFound (fst (bs ! i))
           \<or> 2 \<le> occurrences_at c bs i \<and> e = Ambiguous (occurrences_at c bs i))"
proof (induction bs arbitrary: c)
  case Nil
  then show ?case by simp
next
  case (Cons b bs)
  obtain s r where b: "b = (s, r)" by (cases b)
  consider (zero) "str_count c s = 0" | (one) "str_count c s = 1" | (many) "2 \<le> str_count c s"
    by linarith
  then show ?case
  proof cases
    case zero
    then have "\<not> str_contains c s" by (simp add: str_contains_iff_count)
    with Cons.prems have "e = NotFound s" by (simp add: b)
    with zero show ?thesis
      by (intro exI [of _ 0]) (simp add: b occurrences_at_0)
  next
    case many
    then have "str_contains c s" by (simp add: str_contains_iff_count)
    with many Cons.prems have "e = Ambiguous (str_count c s)" by (auto simp: b Let_def)
    with many show ?thesis
      by (intro exI [of _ 0]) (simp add: b occurrences_at_0)
  next
    case one
    then have "str_contains c s" by (simp add: str_contains_iff_count)
    with one Cons.prems have "apply_blocks (str_replace1 c s r) bs = Inl e" by (simp add: b)
    from Cons.IH [OF this] obtain i where i: "i < length bs"
      and before: "\<forall>j<i. occurrences_at (str_replace1 c s r) bs j = 1"
      and at: "occurrences_at (str_replace1 c s r) bs i = 0 \<and> e = NotFound (fst (bs ! i))
           \<or> 2 \<le> occurrences_at (str_replace1 c s r) bs i
              \<and> e = Ambiguous (occurrences_at (str_replace1 c s r) bs i)"
      by blast
    from before one have "\<forall>j<Suc i. occurrences_at c (b # bs) j = 1"
      by (simp add: all_less_Suc_shift b occurrences_at_0 occurrences_at_Suc)
    with i at show ?thesis
      by (intro exI [of _ "Suc i"]) (simp add: b occurrences_at_Suc)
  qed
qed

text \<open>
  Claim C2. For a payload that parses to at least one block, \<^verbatim>\<open>apply_diff\<close> raises
  if and only if for some block the number of occurrences Python counts for its search
  text, in the content left by the blocks before it, differs from one. The error raised
  belongs to the first such block: not-found when the count is zero, ambiguous (with
  the count) when it is two or more. A raise returns no content; when every count is
  one the result is the accumulated content. \<^verbatim>\<open>apply_diff\<close> is a function of two
  immutable strings, so the caller's original is never changed.
\<close>

theorem apply_diff_failure:
  assumes "finditer payload = bs" and "bs \<noteq> []"
  shows "((\<exists>e. apply_diff original payload = Inl e)
            \<longleftrightarrow> (\<exists>i<length bs. occurrences_at original bs i \<noteq> 1))
       \<and> (\<forall>e. apply_diff original payload = Inl e \<longrightarrow>
             (\<exists>i<length bs. (\<forall>j<i. occurrences_at original bs j = 1)
                \<and> (occurrences_at original bs i = 0 \<and> e = NotFound (fst (bs ! i))
                   \<or> 2 \<le> occurrences_at original bs i
                      \<and> e = Ambiguous (occurrences_at original bs i))))
       \<and> ((\<forall>i<length bs. occurrences_at original bs i = 1)
             \<longrightarrow> apply_diff original payload = Inr (accumulated original bs))"
proof -
  from assms have ad: "apply_diff original payload = apply_blocks original bs"
    by (simp add: apply_diff_def)
  have "(\<exists>e. apply_blocks original bs = Inl e) \<longleftrightarrow> \<not> (\<exists>c'. apply_blocks original bs = Inr c')"
    by (cases "apply_blocks original bs") auto
  also have "\<dots> \<longleftrightarrow> (\<exists>i<length bs. occurrences_at original bs i \<noteq> 1)"
    by (auto simp: apply_blocks_Inr_iff)
  finally have iff: "(\<exists>e. apply_blocks original bs = Inl e)
      \<longleftrightarrow> (\<exists>i<length bs. occurrences_at original bs i \<noteq> 1)" .
  show ?thesis
    unfolding ad using iff apply_blocks_Inl [of original bs] apply_blocks_Inr_iff [of original bs]
    by blast
qed

text \<open>The input of \<^verbatim>\<open>test_apply_diff_ambiguous_block\<close>.\<close>

theorem apply_diff_failure_witness:
  "finditer ''<<<<<< SEARCH\<newline>line1\<newline>======\<newline>new\<newline>>>>>>> REPLACE'' = [(''line1'', ''new'')]
   \<and> [(''line1'', ''new'')] \<noteq> []
   \<and> occurrences_at ''line1\<newline>line1\<newline>'' [(''line1'', ''new'')] 0 = 2
   \<and> apply_diff ''line1\<newline>line1\<newline>''
        ''<<<<<< SEARCH\<newline>line1\<newline>======\<newline>new\<newline>>>>>>> REPLACE'' = Inl (Ambiguous 2)"
proof -
  let ?p = "''<<<<<< SEARCH\<newline>line1\<newline>======\<newline>new\<newline>>>>>>> REPLACE''"
  let ?o = "''line1\<newline>line1\<newline>''"
  have h1: "finditer ?p = [(''line1'', ''new'')]" by code_simp
  have h2: "[(''line1'', ''new'')] \<noteq> ([] :: (string \<times> string) list)" by simp
  have occ: "occurrences_at ?o [(''line1'', ''new'')] 0 = 2" by code_simp
  then have "\<exists>i<length [(''line1'', ''new'')]. occurrences_at ?o [(''line1'', ''new'')] i \<noteq> 1"
    by (intro exI [of _ 0]) simp
  with apply_diff_failure [OF h1 h2, of ?o] obtain e where e: "apply_diff ?o ?p = Inl e"
    by blast
  with apply_diff_failure [OF h1 h2, of ?o] occ have "e = Ambiguous 2"
    by auto
  with e h1 h2 occ show ?thesis by simp
qed

section \<open>Order of two blocks\<close>

lemma occurrence_at: "length pre \<in> set (occurrences (pre @ sub @ post) sub)"
  by (simp add: occurrences_def)

lemma occurs_once_same:
  assumes "occurs_once s sub" and "i \<in> set (occurrences s sub)" and "j \<in> set (occurrences s sub)"
  shows "i = j"
proof -
  from assms(1) obtain k where "occurrences s sub = [k]"
    by (auto simp: occurs_once_def length_Suc_conv)
  with assms(2,3) show ?thesis by simp
qed

lemma occurs_once_replace:
  assumes once: "occurs_once s sub" and s: "s = pre @ sub @ post"
  shows "str_contains s sub \<and> str_count s sub = 1 \<and> str_replace1 s sub new = pre @ new @ post"
proof (cases "sub = []")
  case True
  with once have "s = []" by (simp add: occurs_once_def occurrences_def)
  with True s show ?thesis by (simp add: str_contains_def str_count_def str_replace1_def)
next
  case False
  have sub: "sublist sub s" unfolding s by (metis sublist_appendI)
  from first_occurrence [OF False sub, of new] obtain p q where pq: "s = p @ sub @ q"
    and rep: "replace_from sub new s = p @ new @ q"
    and cnt: "count_from sub s = Suc (count_from sub q)"
    by blast
  have "length p = length pre"
    using occurs_once_same [OF once] occurrence_at [of p sub q] occurrence_at [of pre sub post] pq s
    by metis
  with pq s have p: "p = pre" and q: "q = post" by auto
  have "\<not> sublist sub q"
  proof
    assume "sublist sub q"
    then obtain a b where "q = a @ sub @ b" by (auto simp: sublist_def)
    with pq have "s = (p @ sub @ a) @ sub @ b" by simp
    then have "length (p @ sub @ a) \<in> set (occurrences s sub)"
      using occurrence_at [of "p @ sub @ a" sub b] by simp
    moreover have "length p \<in> set (occurrences s sub)"
      using occurrence_at [of p sub q] pq by simp
    ultimately have "length (p @ sub @ a) = length p" by (rule occurs_once_same [OF once])
    with False show False by simp
  qed
  then have "count_from sub q = 0" using count_from_zero_iff [OF False] by simp
  with cnt rep p q False sub show ?thesis
    by (simp add: str_contains_def str_count_def str_replace1_def)
qed

text \<open>
  Claim C9, as amended. Let the original content hold \<open>S1\<close> and \<open>S2\<close> at disjoint places,
  and let each block's search text start at exactly one position, overlapping
  occurrences included, in the content the block is applied to, in either order of the
  two blocks. Then both payloads succeed and yield the same content: the original with
  both places replaced. (The payload with \<open>S2\<close> before \<open>S1\<close> in the text is the same
  statement with the two blocks renamed.)
\<close>

theorem two_blocks_commute:
  assumes p12: "finditer p12 = [(S1, R1), (S2, R2)]"
    and p21: "finditer p21 = [(S2, R2), (S1, R1)]"
    and orig: "original = a @ S1 @ b @ S2 @ c"
    and u1: "occurs_once original S1"
    and u2: "occurs_once (a @ R1 @ b @ S2 @ c) S2"
    and v2: "occurs_once original S2"
    and v1: "occurs_once (a @ S1 @ b @ R2 @ c) S1"
  shows "apply_diff original p12 = Inr (a @ R1 @ b @ R2 @ c)
       \<and> apply_diff original p21 = Inr (a @ R1 @ b @ R2 @ c)"
proof -
  from occurs_once_replace [OF u1 orig, of R1]
  have s1: "str_contains original S1" "str_count original S1 = 1"
    "str_replace1 original S1 R1 = a @ R1 @ b @ S2 @ c" by simp_all
  have "a @ R1 @ b @ S2 @ c = (a @ R1 @ b) @ S2 @ c" by simp
  from occurs_once_replace [OF u2 this, of R2]
  have s2: "str_contains (a @ R1 @ b @ S2 @ c) S2" "str_count (a @ R1 @ b @ S2 @ c) S2 = 1"
    "str_replace1 (a @ R1 @ b @ S2 @ c) S2 R2 = a @ R1 @ b @ R2 @ c" by simp_all
  have "original = (a @ S1 @ b) @ S2 @ c" using orig by simp
  from occurs_once_replace [OF v2 this, of R2]
  have t2: "str_contains original S2" "str_count original S2 = 1"
    "str_replace1 original S2 R2 = a @ S1 @ b @ R2 @ c" by simp_all
  have "a @ S1 @ b @ R2 @ c = a @ S1 @ (b @ R2 @ c)" by simp
  from occurs_once_replace [OF v1 this, of R1]
  have t1: "str_contains (a @ S1 @ b @ R2 @ c) S1" "str_count (a @ S1 @ b @ R2 @ c) S1 = 1"
    "str_replace1 (a @ S1 @ b @ R2 @ c) S1 R1 = a @ R1 @ b @ R2 @ c" by simp_all
  have "apply_diff original p12 = Inr (a @ R1 @ b @ R2 @ c)"
    using p12 s1 s2 by (simp add: apply_diff_def)
  moreover have "apply_diff original p21 = Inr (a @ R1 @ b @ R2 @ c)"
    using p21 t1 t2 by (simp add: apply_diff_def)
  ultimately show ?thesis by simp
qed

text \<open>The two blocks of \<^verbatim>\<open>test_apply_diff_multiple_blocks\<close>, in both orders.\<close>

theorem two_blocks_commute_witness:
  "apply_diff ''line1\<newline>line2\<newline>line3\<newline>line4\<newline>''
     ''<<<<<< SEARCH\<newline>line1\<newline>======\<newline>line1_mod\<newline>>>>>>> REPLACE\<newline><<<<<< SEARCH\<newline>line4\<newline>======\<newline>line4_mod\<newline>>>>>>> REPLACE''
     = Inr ''line1_mod\<newline>line2\<newline>line3\<newline>line4_mod\<newline>''
   \<and> apply_diff ''line1\<newline>line2\<newline>line3\<newline>line4\<newline>''
     ''<<<<<< SEARCH\<newline>line4\<newline>======\<newline>line4_mod\<newline>>>>>>> REPLACE\<newline><<<<<< SEARCH\<newline>line1\<newline>======\<newline>line1_mod\<newline>>>>>>> REPLACE''
     = Inr ''line1_mod\<newline>line2\<newline>line3\<newline>line4_mod\<newline>''"
proof -
  let ?p12 = "''<<<<<< SEARCH\<newline>line1\<newline>======\<newline>line1_mod\<newline>>>>>>> REPLACE\<newline><<<<<< SEARCH\<newline>line4\<newline>======\<newline>line4_mod\<newline>>>>>>> REPLACE''"
  let ?p21 = "''<<<<<< SEARCH\<newline>line4\<newline>======\<newline>line4_mod\<newline>>>>>>> REPLACE\<newline><<<<<< SEARCH\<newline>line1\<newline>======\<newline>line1_mod\<newline>>>>>>> REPLACE''"
  have h1: "finditer ?p12 = [(''line1'', ''line1_mod''), (''line4'', ''line4_mod'')]" by code_simp
  have h2: "finditer ?p21 = [(''line4'', ''line4_mod''), (''line1'', ''line1_mod'')]" by code_simp
  have h3: "''line1\<newline>line2\<newline>line3\<newline>line4\<newline>''
              = '''' @ ''line1'' @ ''\<newline>line2\<newline>line3\<newline>'' @ ''line4'' @ ''\<newline>''" by simp
  have h4: "occurs_once ''line1\<newline>line2\<newline>line3\<newline>line4\<newline>'' ''line1''" by code_simp
  have h5: "occurs_once ('''' @ ''line1_mod'' @ ''\<newline>line2\<newline>line3\<newline>'' @ ''line4'' @ ''\<newline>'') ''line4''" by code_simp
  have h6: "occurs_once ''line1\<newline>line2\<newline>line3\<newline>line4\<newline>'' ''line4''" by code_simp
  have h7: "occurs_once ('''' @ ''line1'' @ ''\<newline>line2\<newline>line3\<newline>'' @ ''line4_mod'' @ ''\<newline>'') ''line1''" by code_simp
  from two_blocks_commute [OF h1 h2 h3 h4 h5 h6 h7] show ?thesis by simp
qed

text \<open>
  Claim C9 as stated asks only that each block applies uniquely, which for the code means
  that \<^verbatim>\<open>str.count\<close> returns one. In \<^verbatim>\<open>aXaa\<close> the block deleting \<^verbatim>\<open>X\<close> and the block
  replacing \<^verbatim>\<open>aa\<close> by \<^verbatim>\<open>b\<close> target disjoint text, share no character between a search
  text and the other replace text, and each count is one in both orders; yet deleting
  \<^verbatim>\<open>X\<close> first leaves \<^verbatim>\<open>aaa\<close>, where the leftmost \<^verbatim>\<open>aa\<close> is not the targeted one.
\<close>

theorem two_blocks_commute_counterexample:
  "finditer ''<<<<<< SEARCH\<newline>X\<newline>======\<newline>\<newline>>>>>>> REPLACE\<newline><<<<<< SEARCH\<newline>aa\<newline>======\<newline>b\<newline>>>>>>> REPLACE''
     = [(''X'', ''''), (''aa'', ''b'')]
   \<and> finditer ''<<<<<< SEARCH\<newline>aa\<newline>======\<newline>b\<newline>>>>>>> REPLACE\<newline><<<<<< SEARCH\<newline>X\<newline>======\<newline>\<newline>>>>>>> REPLACE''
     = [(''aa'', ''b''), (''X'', '''')]
   \<and> ''aXaa'' = ''a'' @ ''X'' @ '''' @ ''aa'' @ ''''
   \<and> str_count ''aXaa'' ''X'' = 1 \<and> str_count ''aaa'' ''aa'' = 1
   \<and> str_count ''aXaa'' ''aa'' = 1 \<and> str_count ''aXb'' ''X'' = 1
   \<and> set ''X'' \<inter> set ''b'' = {} \<and> set ''aa'' \<inter> set '''' = {}
   \<and> apply_diff ''aXaa'' ''<<<<<< SEARCH\<newline>X\<newline>======\<newline>\<newline>>>>>>> REPLACE\<newline><<<<<< SEARCH\<newline>aa\<newline>======\<newline>b\<newline>>>>>>> REPLACE''
       = Inr ''ba''
   \<and> apply_diff ''aXaa'' ''<<<<<< SEARCH\<newline>aa\<newline>======\<newline>b\<newline>>>>>>> REPLACE\<newline><<<<<< SEARCH\<newline>X\<newline>======\<newline>\<newline>>>>>>> REPLACE''
       = Inr ''ab''
   \<and> ''ba'' \<noteq> ''ab''"
  by code_simp

section \<open>The linter does not block the pipeline\<close>

text \<open>
  Claim C8, as amended. Let a \<^verbatim>\<open>.py\<close> file be readable and compile. If the linter
  exits non-zero with standard output that is empty, or empty after \<^verbatim>\<open>strip()\<close>,
  \<^verbatim>\<open>check_code\<close> returns \<open>None\<close> and prints nothing. If the linter is not installed
  or its invocation raises another exception, \<^verbatim>\<open>check_code\<close> returns \<open>None\<close> and
  prints one warning line. Whenever \<^verbatim>\<open>check_code\<close> reports a failure for such a file,
  the linter exited non-zero with output that is not empty after \<^verbatim>\<open>strip()\<close>, and the
  message carries that output; and every such exit is reported.
\<close>

theorem check_code_linter:
  assumes py: "suffix ''.py'' filename"
    and src: "read_utf8 env fs filename = Inr source"
    and ok: "compile_source env source filename = Compiled"
  shows "(\<forall>returncode stdout. run_ruff env fs filename = Completed returncode stdout
              \<and> returncode \<noteq> 0 \<and> strip stdout = []
            \<longrightarrow> check_code env fs filename = (None, []))
       \<and> (run_ruff env fs filename = File_Not_Found_Error
            \<longrightarrow> check_code env fs filename
                  = (None, [''Warning: ruff not found, skipping lint check for '' @ filename]))
       \<and> (\<forall>e. run_ruff env fs filename = Run_Exception e
            \<longrightarrow> check_code env fs filename
                  = (None, [''Warning: Error running linter on '' @ filename @ '': '' @ e]))
       \<and> (\<forall>msg. fst (check_code env fs filename) = Some msg
            \<longrightarrow> (\<exists>returncode stdout. run_ruff env fs filename = Completed returncode stdout
                   \<and> returncode \<noteq> 0 \<and> stdout \<noteq> [] \<and> strip stdout \<noteq> []
                   \<and> msg = ''Linter Errors in '' @ filename @ '':\<newline>'' @ stdout))
       \<and> (\<forall>returncode stdout. run_ruff env fs filename = Completed returncode stdout
              \<and> returncode \<noteq> 0 \<and> strip stdout \<noteq> []
            \<longrightarrow> check_code env fs filename
                  = (Some (''Linter Errors in '' @ filename @ '':\<newline>'' @ stdout), []))"
proof -
  have rc: "read_and_compile env fs filename = Compiled"
    using src ok by (simp add: read_and_compile_def)
  have strip_Nil: "strip [] = []" by (simp add: strip_def)
  have nonempty: "stdout \<noteq> []" if "strip stdout \<noteq> []" for stdout
    using that strip_Nil by auto
  show ?thesis
    using py rc nonempty
    by (cases "run_ruff env fs filename") (auto simp: check_code_def)
qed

text \<open>A linter that is absent, one that cannot be run, and one that reports an error.\<close>

theorem check_code_linter_witness:
  "check_code env_no_ruff (disk_with [(''/w/a.py'', ''print(1)'')]) ''/w/a.py''
     = (None, [''Warning: ruff not found, skipping lint check for /w/a.py''])
   \<and> check_code env_ruff_crash (disk_with [(''/w/a.py'', ''print(1)'')]) ''/w/a.py''
     = (None, [''Warning: Error running linter on /w/a.py: Permission denied''])
   \<and> check_code (env_ruff 1 ''a.py:1:1: F401 unused\<newline>'') (disk_with [(''/w/a.py'', ''print(1)'')]) ''/w/a.py''
     = (Some ''Linter Errors in /w/a.py:\<newline>a.py:1:1: F401 unused\<newline>'', [])"
proof -
  let ?fs = "disk_with [(''/w/a.py'', ''print(1)'')]"
  let ?f = "''/w/a.py''"
  let ?out = "''a.py:1:1: F401 unused\<newline>''"
  have py: "suffix ''.py'' ?f" by code_simp
  have rd: "disk_read ?fs ?f = Inr ''print(1)''" by code_simp
  have src1: "read_utf8 env_no_ruff ?fs ?f = Inr ''print(1)''"
    using rd by (simp add: env_no_ruff_def)
  have src2: "read_utf8 (env_ruff rc out) ?fs ?f = Inr ''print(1)''" for rc out
    using rd by (simp add: env_ruff_def env_no_ruff_def)
  have src3: "read_utf8 env_ruff_crash ?fs ?f = Inr ''print(1)''"
    using rd by (simp add: env_ruff_crash_def env_no_ruff_def)
  have c1: "compile_source env_no_ruff ''print(1)'' ?f = Compiled"
    by (simp add: env_no_ruff_def)
  have c2: "compile_source (env_ruff rc out) ''print(1)'' ?f = Compiled" for rc out
    by (simp add: env_ruff_def env_no_ruff_def)
  have c3: "compile_source env_ruff_crash ''print(1)'' ?f = Compiled"
    by (simp add: env_ruff_crash_def env_no_ruff_def)
  have r1: "run_ruff env_no_ruff ?fs ?f = File_Not_Found_Error"
    by (simp add: env_no_ruff_def)
  have r2: "run_ruff (env_ruff rc out) ?fs ?f = Completed rc out" for rc out
    by (simp add: env_ruff_def)
  have r3: "run_ruff env_ruff_crash ?fs ?f = Run_Exception ''Permission denied''"
    by (simp add: env_ruff_crash_def)
  have s: "strip ?out \<noteq> []" by code_simp
  note inst = check_code_linter [where fs = "?fs" and filename = "?f"
      and source = "''print(1)''", OF py]
  have a: "check_code env_no_ruff ?fs ?f
     = (None, [''Warning: ruff not found, skipping lint check for '' @ ?f])"
    using inst [OF src1 c1] r1 by blast
  have c: "check_code env_ruff_crash ?fs ?f
     = (None, [''Warning: Error running linter on '' @ ?f @ '': '' @ ''Permission denied''])"
    using inst [OF src3 c3] r3 by blast
  have "run_ruff (env_ruff 1 ?out) ?fs ?f = Completed 1 ?out \<and> (1::int) \<noteq> 0 \<and> strip ?out \<noteq> []"
    using r2 [of 1 ?out] s by simp
  with inst [OF src2 [of 1 ?out] c2 [of 1 ?out]]
  have d: "check_code (env_ruff 1 ?out) ?fs ?f
     = (Some (''Linter Errors in '' @ ?f @ '':\<newline>'' @ ?out), [])"
    by blast
  have e1: "''Warning: ruff not found, skipping lint check for '' @ ?f
      = ''Warning: ruff not found, skipping lint check for /w/a.py''" by simp
  have e2: "''Warning: Error running linter on '' @ ?f @ '': '' @ ''Permission denied''
      = ''Warning: Error running linter on /w/a.py: Permission denied''" by simp
  have e3: "''Linter Errors in '' @ ?f @ '':\<newline>'' @ ?out
      = ''Linter Errors in /w/a.py:\<newline>a.py:1:1: F401 unused\<newline>''" by simp
  show ?thesis
    unfolding a c d e1 e2 e3 by (intro conjI refl)
qed

text \<open>
  Claim C8 as stated has all three degraded outcomes pass with a warning, and every
  non-zero exit with non-empty output reported. For a file that compiles, a linter that
  exits with code 2 and no output makes \<^verbatim>\<open>check_code\<close> return \<open>None\<close> without
  printing anything; and one that exits with code 1 and a single newline as output is not
  reported.
\<close>

theorem check_code_linter_counterexample:
  "suffix ''.py'' ''/w/a.py''
   \<and> read_utf8 (env_ruff 2 '''') (disk_with [(''/w/a.py'', ''print(1)'')]) ''/w/a.py'' = Inr ''print(1)''
   \<and> compile_source (env_ruff 2 '''') ''print(1)'' ''/w/a.py'' = Compiled
   \<and> run_ruff (env_ruff 2 '''') (disk_with [(''/w/a.py'', ''print(1)'')]) ''/w/a.py'' = Completed 2 ''''
   \<and> check_code (env_ruff 2 '''') (disk_with [(''/w/a.py'', ''print(1)'')]) ''/w/a.py'' = (None, [])
   \<and> run_ruff (env_ruff 1 ''\<newline>'') (disk_with [(''/w/a.py'', ''print(1)'')]) ''/w/a.py'' = Completed 1 ''\<newline>''
   \<and> check_code (env_ruff 1 ''\<newline>'') (disk_with [(''/w/a.py'', ''print(1)'')]) ''/w/a.py'' = (None, [])"
  by code_simp

section \<open>What one attempt does\<close>

lemma failures_of_append: "failures_of (xs @ ys) = failures_of xs @ failures_of ys"
  by (induction xs rule: failures_of.induct) auto

lemma failures_of_Nil_iff: "failures_of es = [] \<longleftrightarrow> (\<forall>e \<in> set es. \<not> is_failure e)"
  by (induction es rule: failures_of.induct) auto

lemma new_events_append: "log w' = log w @ evs \<Longrightarrow> new_events w w' = evs"
  by (simp add: new_events_def)

lemma payload_shape_Content_iff:
  "payload_shape p = Content s
     \<longleftrightarrow> p = JStr s \<or> (\<exists>d. p = JDict d \<and> map_of d ''content'' = Some (JStr s))"
  by (auto simp: payload_shape_def split: json.splits option.splits)

lemma process_entry_skip:
  assumes "\<forall>s. payload_shape content \<noteq> Content s"
  shows "process_entry env (w, files_with_errors) (filename, content)
           = (case ensure_parent env (os w) (path_join (local_repo_path env) filename) of
                (fs1, Some e) \<Rightarrow> (w\<lparr>os := fs1\<rparr>, Inl e)
              | (fs1, None) \<Rightarrow> (emit (Skipped filename) (w\<lparr>os := fs1\<rparr>), Inr files_with_errors))"
  using assms
  by (cases "payload_shape content")
     (auto simp: process_entry_def Let_def split: prod.splits option.splits)

lemma write_and_check_log:
  "\<exists>evs. log (fst (write_and_check env w f full_path text errs)) = log w @ evs
     \<and> (evs = [] \<or> (\<exists>v. evs = [Wrote f, Checked f v]))
     \<and> (\<forall>errs'. snd (write_and_check env w f full_path text errs) = Inr errs'
           \<longrightarrow> errs' = errs @ failures_of evs \<and> evs \<noteq> [])"
  by (auto simp: write_and_check_def emit_def Let_def split: prod.splits option.splits)

lemma process_entry_log:
  "\<exists>evs. log (fst (process_entry env (w, errs) (f, p))) = log w @ evs
     \<and> ((\<forall>s. payload_shape p \<noteq> Content s) \<and> (evs = [] \<or> evs = [Skipped f])
        \<or> (\<exists>s. payload_shape p = Content s)
           \<and> (evs = [] \<or> (\<exists>m. evs = [Diff_Error f m]) \<or> (\<exists>v. evs = [Wrote f, Checked f v])))
     \<and> (\<forall>errs'. snd (process_entry env (w, errs) (f, p)) = Inr errs'
           \<longrightarrow> errs' = errs @ failures_of evs \<and> evs \<noteq> [])"
proof -
  let ?full = "path_join (local_repo_path env) f"
  obtain fs1 ex where ep: "ensure_parent env (os w) ?full = (fs1, ex)"
    by (cases "ensure_parent env (os w) ?full")
  show ?thesis
  proof (cases ex)
    case (Some e)
    with ep have "process_entry env (w, errs) (f, p) = (w\<lparr>os := fs1\<rparr>, Inl e)"
      by (simp add: process_entry_def)
    then show ?thesis by (cases "payload_shape p") auto
  next
    case None
    show ?thesis
    proof (cases "payload_shape p")
      case No_content_key
      with ep None show ?thesis by (simp add: process_entry_def emit_def)
    next
      case Not_a_string
      with ep None show ?thesis by (simp add: process_entry_def emit_def)
    next
      case (Content s)
      show ?thesis
      proof (cases "resolve_content env fs1 ?full s")
        case (Raised e)
        with ep None Content show ?thesis by (simp add: process_entry_def)
      next
        case (Diff_Failed m)
        with ep None Content show ?thesis by (simp add: process_entry_def emit_def)
      next
        case (Resolved new_text)
        with ep None Content
        have pe: "process_entry env (w, errs) (f, p)
                = write_and_check env (w\<lparr>os := fs1\<rparr>) f ?full new_text errs"
          by (simp add: process_entry_def)
        from write_and_check_log [of env "w\<lparr>os := fs1\<rparr>" f ?full new_text errs] obtain evs
          where "log (fst (write_and_check env (w\<lparr>os := fs1\<rparr>) f ?full new_text errs)) = log w @ evs"
            and "evs = [] \<or> (\<exists>v. evs = [Wrote f, Checked f v])"
            and "\<forall>errs'. snd (write_and_check env (w\<lparr>os := fs1\<rparr>) f ?full new_text errs) = Inr errs'
                   \<longrightarrow> errs' = errs @ failures_of evs \<and> evs \<noteq> []"
          by auto
        with pe Content show ?thesis by auto
      qed
    qed
  qed
qed

lemma process_entries_log:
  "\<exists>evs. log (fst (process_entries env w errs changes)) = log w @ evs
     \<and> (\<forall>e \<in> set evs. \<not> is_attempt e)
     \<and> (\<forall>f. Wrote f \<in> set evs \<or> (\<exists>v. Checked f v \<in> set evs) \<or> (\<exists>m. Diff_Error f m \<in> set evs)
            \<longrightarrow> (\<exists>p s. (f, p) \<in> set changes \<and> payload_shape p = Content s))
     \<and> (\<forall>errs'. snd (process_entries env w errs changes) = Inr errs'
           \<longrightarrow> errs' = errs @ failures_of evs
             \<and> (\<forall>(f, p) \<in> set changes.
                   if \<exists>s. payload_shape p = Content s
                   then (\<exists>m. Diff_Error f m \<in> set evs)
                        \<or> (Wrote f \<in> set evs \<and> (\<exists>v. Checked f v \<in> set evs))
                   else Skipped f \<in> set evs))"
proof (induction changes arbitrary: w errs)
  case Nil
  then show ?case by simp
next
  case (Cons entry changes)
  obtain f p where entry: "entry = (f, p)" by (cases entry)
  obtain w1 res1 where pe: "process_entry env (w, errs) (f, p) = (w1, res1)"
    by (cases "process_entry env (w, errs) (f, p)")
  from process_entry_log [of env w errs f p] pe obtain evs1
    where l1: "log w1 = log w @ evs1"
      and k1: "(\<forall>s. payload_shape p \<noteq> Content s) \<and> (evs1 = [] \<or> evs1 = [Skipped f])
        \<or> (\<exists>s. payload_shape p = Content s)
           \<and> (evs1 = [] \<or> (\<exists>m. evs1 = [Diff_Error f m]) \<or> (\<exists>v. evs1 = [Wrote f, Checked f v]))"
      and r1: "\<forall>errs'. res1 = Inr errs' \<longrightarrow> errs' = errs @ failures_of evs1 \<and> evs1 \<noteq> []"
    by auto
  have a1: "\<forall>e \<in> set evs1. \<not> is_attempt e" using k1 by auto
  have b1: "\<forall>g. Wrote g \<in> set evs1 \<or> (\<exists>v. Checked g v \<in> set evs1) \<or> (\<exists>m. Diff_Error g m \<in> set evs1)
            \<longrightarrow> g = f \<and> (\<exists>s. payload_shape p = Content s)"
    using k1 by auto
  show ?case
  proof (cases res1)
    case (Inl e)
    with pe have "process_entries env w errs (entry # changes) = (w1, Inl e)"
      by (simp add: entry)
    then have l: "log (fst (process_entries env w errs (entry # changes))) = log w @ evs1"
      and c: "\<forall>errs'. snd (process_entries env w errs (entry # changes)) \<noteq> Inr errs'"
      using l1 by simp_all
    have b: "\<forall>g. Wrote g \<in> set evs1 \<or> (\<exists>v. Checked g v \<in> set evs1)
                 \<or> (\<exists>m. Diff_Error g m \<in> set evs1)
            \<longrightarrow> (\<exists>q s. (g, q) \<in> set (entry # changes) \<and> payload_shape q = Content s)"
    proof (intro allI impI)
      fix g
      assume "Wrote g \<in> set evs1 \<or> (\<exists>v. Checked g v \<in> set evs1)
                 \<or> (\<exists>m. Diff_Error g m \<in> set evs1)"
      with b1 have "g = f" and "\<exists>s. payload_shape p = Content s" by auto
      then show "\<exists>q s. (g, q) \<in> set (entry # changes) \<and> payload_shape q = Content s"
        by (auto simp: entry)
    qed
    from l a1 b c show ?thesis by blast
  next
    case (Inr errs1)
    with pe have unfold: "process_entries env w errs (entry # changes)
                  = process_entries env w1 errs1 changes"
      by (simp add: entry)
    from r1 Inr have e1: "errs1 = errs @ failures_of evs1" and ne1: "evs1 \<noteq> []" by auto
    from Cons.IH [of w1 errs1] obtain evs2
      where l2: "log (fst (process_entries env w1 errs1 changes)) = log w1 @ evs2"
        and a2: "\<forall>e \<in> set evs2. \<not> is_attempt e"
        and b2: "\<forall>f. Wrote f \<in> set evs2 \<or> (\<exists>v. Checked f v \<in> set evs2)
                     \<or> (\<exists>m. Diff_Error f m \<in> set evs2)
            \<longrightarrow> (\<exists>p s. (f, p) \<in> set changes \<and> payload_shape p = Content s)"
        and c2: "\<forall>errs'. snd (process_entries env w1 errs1 changes) = Inr errs'
           \<longrightarrow> errs' = errs1 @ failures_of evs2
             \<and> (\<forall>(f, p) \<in> set changes.
                   if \<exists>s. payload_shape p = Content s
                   then (\<exists>m. Diff_Error f m \<in> set evs2)
                        \<or> (Wrote f \<in> set evs2 \<and> (\<exists>v. Checked f v \<in> set evs2))
                   else Skipped f \<in> set evs2)"
      by blast
    have l: "log (fst (process_entries env w errs (entry # changes))) = log w @ (evs1 @ evs2)"
      using unfold l1 l2 by simp
    have a: "\<forall>e \<in> set (evs1 @ evs2). \<not> is_attempt e" using a1 a2 by auto
    have b: "\<forall>g. Wrote g \<in> set (evs1 @ evs2) \<or> (\<exists>v. Checked g v \<in> set (evs1 @ evs2))
                 \<or> (\<exists>m. Diff_Error g m \<in> set (evs1 @ evs2))
            \<longrightarrow> (\<exists>q s. (g, q) \<in> set (entry # changes) \<and> payload_shape q = Content s)"
    proof (intro allI impI)
      fix g
      assume g: "Wrote g \<in> set (evs1 @ evs2) \<or> (\<exists>v. Checked g v \<in> set (evs1 @ evs2))
                 \<or> (\<exists>m. Diff_Error g m \<in> set (evs1 @ evs2))"
      show "\<exists>q s. (g, q) \<in> set (entry # changes) \<and> payload_shape q = Content s"
      proof (cases "Wrote g \<in> set evs1 \<or> (\<exists>v. Checked g v \<in> set evs1)
                     \<or> (\<exists>m. Diff_Error g m \<in> set evs1)")
        case True
        with b1 have "g = f" and "\<exists>s. payload_shape p = Content s" by auto
        then show ?thesis by (auto simp: entry)
      next
        case False
        with g have "Wrote g \<in> set evs2 \<or> (\<exists>v. Checked g v \<in> set evs2)
                     \<or> (\<exists>m. Diff_Error g m \<in> set evs2)"
          by auto
        with b2 show ?thesis by (meson list.set_intros(2))
      qed
    qed
    have c: "\<forall>errs'. snd (process_entries env w errs (entry # changes)) = Inr errs'
           \<longrightarrow> errs' = errs @ failures_of (evs1 @ evs2)
             \<and> (\<forall>(g, q) \<in> set (entry # changes).
                   if \<exists>s. payload_shape q = Content s
                   then (\<exists>m. Diff_Error g m \<in> set (evs1 @ evs2))
                        \<or> (Wrote g \<in> set (evs1 @ evs2) \<and> (\<exists>v. Checked g v \<in> set (evs1 @ evs2)))
                   else Skipped g \<in> set (evs1 @ evs2))"
    proof (intro allI impI)
      fix errs'
      assume "snd (process_entries env w errs (entry # changes)) = Inr errs'"
      with unfold have "snd (process_entries env w1 errs1 changes) = Inr errs'" by simp
      with c2 have e2: "errs' = errs1 @ failures_of evs2"
        and rest2: "\<forall>(f, p) \<in> set changes.
                   if \<exists>s. payload_shape p = Content s
                   then (\<exists>m. Diff_Error f m \<in> set evs2)
                        \<or> (Wrote f \<in> set evs2 \<and> (\<exists>v. Checked f v \<in> set evs2))
                   else Skipped f \<in> set evs2"
        by auto
      have first: "if \<exists>s. payload_shape p = Content s
           then (\<exists>m. Diff_Error f m \<in> set (evs1 @ evs2))
                \<or> (Wrote f \<in> set (evs1 @ evs2) \<and> (\<exists>v. Checked f v \<in> set (evs1 @ evs2)))
           else Skipped f \<in> set (evs1 @ evs2)"
        using k1 ne1 by auto
      have rest: "\<forall>(g, q) \<in> set changes.
                   if \<exists>s. payload_shape q = Content s
                   then (\<exists>m. Diff_Error g m \<in> set (evs1 @ evs2))
                        \<or> (Wrote g \<in> set (evs1 @ evs2) \<and> (\<exists>v. Checked g v \<in> set (evs1 @ evs2)))
                   else Skipped g \<in> set (evs1 @ evs2)"
        using rest2 by (auto split: if_splits)
      from e1 e2 first rest
      show "errs' = errs @ failures_of (evs1 @ evs2)
             \<and> (\<forall>(g, q) \<in> set (entry # changes).
                   if \<exists>s. payload_shape q = Content s
                   then (\<exists>m. Diff_Error g m \<in> set (evs1 @ evs2))
                        \<or> (Wrote g \<in> set (evs1 @ evs2) \<and> (\<exists>v. Checked g v \<in> set (evs1 @ evs2)))
                   else Skipped g \<in> set (evs1 @ evs2))"
        by (simp add: failures_of_append entry)
    qed
    from l a b c show ?thesis by blast
  qed
qed

lemma run_attempt_log:
  "\<exists>evs. log (fst (run_attempt env r changes w)) = log w @ Attempt (r + 1) # evs
     \<and> (\<forall>e \<in> set evs. \<not> is_attempt e)
     \<and> (\<forall>f. Wrote f \<in> set evs \<or> (\<exists>v. Checked f v \<in> set evs) \<or> (\<exists>m. Diff_Error f m \<in> set evs)
            \<longrightarrow> (\<exists>p s. (f, p) \<in> set changes \<and> payload_shape p = Content s))
     \<and> (\<forall>errs'. snd (run_attempt env r changes w) = Inr errs'
           \<longrightarrow> errs' = failures_of evs
             \<and> (\<forall>(f, p) \<in> set changes.
                   if \<exists>s. payload_shape p = Content s
                   then (\<exists>m. Diff_Error f m \<in> set evs)
                        \<or> (Wrote f \<in> set evs \<and> (\<exists>v. Checked f v \<in> set evs))
                   else Skipped f \<in> set evs))"
  using process_entries_log [of env "emit (Attempt (r + 1)) w" "[]" changes]
  by (simp add: run_attempt_def emit_def)

lemma run_attempt_attempts: "attempts (fst (run_attempt env r changes w)) = Suc (attempts w)"
proof -
  from run_attempt_log [of env r changes w] obtain evs
    where l: "log (fst (run_attempt env r changes w)) = log w @ Attempt (r + 1) # evs"
      and a: "\<forall>e \<in> set evs. \<not> is_attempt e"
    by blast
  from a have "filter is_attempt evs = []" by (simp add: filter_empty_conv)
  with l show ?thesis by (simp add: attempts_def)
qed

lemma run_attempt_failures:
  assumes "snd (run_attempt env r changes w) = Inr errs"
  shows "errs = failures_of (new_events w (fst (run_attempt env r changes w)))"
proof -
  from run_attempt_log [of env r changes w] assms obtain evs
    where l: "log (fst (run_attempt env r changes w)) = log w @ Attempt (r + 1) # evs"
      and e: "errs = failures_of evs"
    by blast
  from new_events_append [OF l] e show ?thesis by simp
qed

lemma request_fixes_attempts:
  "attempts (fst (request_fixes env r changes w errs)) = attempts w"
  by (simp add: request_fixes_def attempts_def emit_def Let_def split: sum.splits)

section \<open>Entries skipped for their payload shape\<close>

text \<open>
  Claim C4. Take an entry of the change set whose payload is neither a string nor a dict
  holding a string under \<^verbatim>\<open>"content"\<close>. Processing it creates the parent directory of
  its target and then skips it: the file is not read, no patch is applied, nothing is
  written, validated or staged, and the failure list is left as it was. In an attempt
  over the change set (a dict, so its keys are distinct) the log holds no write, no
  validation and no patch error for the entry, whether the attempt completes or an
  exception ends it; when the attempt completes, the log records the entry as skipped.
  This holds for whatever attempt number, environment and starting state.
\<close>

theorem invalid_payload_not_written:
  assumes keys: "distinct (map fst changes)"
    and entry: "(f, p) \<in> set changes"
    and not_str: "\<forall>s. p \<noteq> JStr s"
    and not_wrapped: "\<forall>d s. p = JDict d \<longrightarrow> map_of d ''content'' \<noteq> Some (JStr s)"
  shows "process_entry env (w, errs) (f, p)
           = (case ensure_parent env (os w) (path_join (local_repo_path env) f) of
                (fs1, Some e) \<Rightarrow> (w\<lparr>os := fs1\<rparr>, Inl e)
              | (fs1, None) \<Rightarrow> (emit (Skipped f) (w\<lparr>os := fs1\<rparr>), Inr errs))
       \<and> Wrote f \<notin> set (new_events w (fst (run_attempt env r changes w)))
       \<and> (\<forall>v. Checked f v \<notin> set (new_events w (fst (run_attempt env r changes w))))
       \<and> (\<forall>m. Diff_Error f m \<notin> set (new_events w (fst (run_attempt env r changes w))))
       \<and> ((\<exists>errs'. snd (run_attempt env r changes w) = Inr errs')
            \<longrightarrow> Skipped f \<in> set (new_events w (fst (run_attempt env r changes w))))"
proof -
  from not_str not_wrapped have shape: "\<forall>s. payload_shape p \<noteq> Content s"
    by (auto simp: payload_shape_Content_iff)
  from run_attempt_log [of env r changes w] obtain evs
    where l: "log (fst (run_attempt env r changes w)) = log w @ Attempt (r + 1) # evs"
      and b: "\<forall>f. Wrote f \<in> set evs \<or> (\<exists>v. Checked f v \<in> set evs) \<or> (\<exists>m. Diff_Error f m \<in> set evs)
            \<longrightarrow> (\<exists>p s. (f, p) \<in> set changes \<and> payload_shape p = Content s)"
      and c: "\<forall>errs'. snd (run_attempt env r changes w) = Inr errs'
           \<longrightarrow> errs' = failures_of evs
             \<and> (\<forall>(f, p) \<in> set changes.
                   if \<exists>s. payload_shape p = Content s
                   then (\<exists>m. Diff_Error f m \<in> set evs)
                        \<or> (Wrote f \<in> set evs \<and> (\<exists>v. Checked f v \<in> set evs))
                   else Skipped f \<in> set evs)"
    by blast
  have ne: "new_events w (fst (run_attempt env r changes w)) = Attempt (r + 1) # evs"
    using l by (rule new_events_append)
  have skipped: "Skipped f \<in> set evs" if "snd (run_attempt env r changes w) = Inr errs'" for errs'
    using c that entry shape by auto
  have none: "\<not> (Wrote f \<in> set evs \<or> (\<exists>v. Checked f v \<in> set evs) \<or> (\<exists>m. Diff_Error f m \<in> set evs))"
  proof
    assume "Wrote f \<in> set evs \<or> (\<exists>v. Checked f v \<in> set evs) \<or> (\<exists>m. Diff_Error f m \<in> set evs)"
    with b obtain q s where q: "(f, q) \<in> set changes" and s: "payload_shape q = Content s"
      by blast
    from keys entry q have "q = p" by (metis eq_key_imp_eq_value)
    with s shape show False by simp
  qed
  from process_entry_skip [OF shape, of env w errs f] skipped none ne show ?thesis by auto
qed

text \<open>A dict whose \<^verbatim>\<open>"content"\<close> is an integer, next to a well-formed entry.\<close>

theorem invalid_payload_not_written_witness:
  "fst (process_entry env_no_ruff (world_with [], []) (''a.py'', JDict [(''content'', JInt 5)]))
     = emit (Skipped ''a.py'') (world_with [])
   \<and> Wrote ''a.py'' \<notin> set (new_events (world_with []) (fst (run_attempt env_no_ruff 0
        [(''a.py'', JDict [(''content'', JInt 5)]), (''b.txt'', JStr ''hello'')] (world_with []))))
   \<and> new_events (world_with []) (fst (run_attempt env_no_ruff 0
        [(''a.py'', JDict [(''content'', JInt 5)]), (''b.txt'', JStr ''hello'')] (world_with [])))
      = [Attempt 1, Skipped ''a.py'', Wrote ''b.txt'', Checked ''b.txt'' None]"
proof -
  let ?p = "JDict [(''content'', JInt 5)]"
  let ?c = "[(''a.py'', ?p), (''b.txt'', JStr ''hello'')]"
  have h1: "distinct (map fst ?c)" by simp
  have h2: "(''a.py'', ?p) \<in> set ?c" by simp
  have h3: "\<forall>s. ?p \<noteq> JStr s" by simp
  have h4: "\<forall>d s. ?p = JDict d \<longrightarrow> map_of d ''content'' \<noteq> Some (JStr s)" by auto
  have ev: "new_events (world_with []) (fst (run_attempt env_no_ruff 0 ?c (world_with [])))
      = [Attempt 1, Skipped ''a.py'', Wrote ''b.txt'', Checked ''b.txt'' None]" by code_simp
  have pj: "path_join (local_repo_path env_no_ruff) ''a.py'' = ''/w/a.py''"
    by code_simp
  have dn: "dirname ''/w/a.py'' = ''/w''" by code_simp
  have ep: "ensure_parent env_no_ruff (os (world_with [])) ''/w/a.py'' = (os (world_with []), None)"
    by (simp add: ensure_parent_def dn env_no_ruff_def disk_makedirs_def world_with_def disk_with_def)
  from invalid_payload_not_written [OF h1 h2 h3 h4, of env_no_ruff "world_with []" "[]" 0]
  have pe: "process_entry env_no_ruff (world_with [], []) (''a.py'', ?p)
           = (emit (Skipped ''a.py'') ((world_with [])\<lparr>os := os (world_with [])\<rparr>), Inr [])"
    and nw: "Wrote ''a.py'' \<notin> set (new_events (world_with [])
               (fst (run_attempt env_no_ruff 0 ?c (world_with []))))"
    by (simp_all add: pj ep)
  from pe have "fst (process_entry env_no_ruff (world_with [], []) (''a.py'', ?p))
     = emit (Skipped ''a.py'') (world_with [])" by simp
  with nw ev show ?thesis by blast
qed

lemma process_entries_skips:
  assumes "\<forall>(f, p) \<in> set changes. \<forall>s. payload_shape p \<noteq> Content s"
    and "\<forall>(f, p) \<in> set changes.
           ensure_parent env (os w) (path_join (local_repo_path env) f) = (os w, None)"
  shows "process_entries env w errs changes
           = (w\<lparr>log := log w @ map (\<lambda>(f, p). Skipped f) changes\<rparr>, Inr errs)"
  using assms
proof (induction changes arbitrary: w)
  case Nil
  then show ?case by simp
next
  case (Cons entry changes)
  obtain f p where entry: "entry = (f, p)" by (cases entry)
  from Cons.prems entry have shape: "\<forall>s. payload_shape p \<noteq> Content s"
    and parent: "ensure_parent env (os w) (path_join (local_repo_path env) f) = (os w, None)"
    by auto
  have step: "process_entry env (w, errs) (f, p) = (emit (Skipped f) w, Inr errs)"
    using process_entry_skip [OF shape, of env w errs f] parent by simp
  have os: "os (emit (Skipped f) w) = os w" by (simp add: emit_def)
  from Cons.prems have s': "\<forall>(f, p) \<in> set changes. \<forall>s. payload_shape p \<noteq> Content s"
    and p': "\<forall>(g, q) \<in> set changes.
           ensure_parent env (os (emit (Skipped f) w)) (path_join (local_repo_path env) g)
             = (os (emit (Skipped f) w), None)"
    by (auto simp: os)
  from Cons.IH [OF s' p'] step entry show ?case
    by (simp add: emit_def)
qed

text \<open>
  Claim C10. Take a non-empty change set in which no payload is a string or a dict with
  a string under \<^verbatim>\<open>"content"\<close>, and whose targets have their parent directories in
  place (\<^verbatim>\<open>os.makedirs\<close> returns and changes nothing). Then \<^verbatim>\<open>validate_and_fix\<close>
  returns true in its first attempt: every entry is skipped, the failure list stays
  empty, the outside state is untouched (no file written or staged), nothing is
  validated, and the change producer is never asked.
\<close>

theorem skipped_entries_succeed:
  assumes "changes \<noteq> []"
    and "\<forall>(f, p) \<in> set changes. \<forall>s. payload_shape p \<noteq> Content s"
    and "\<forall>(f, p) \<in> set changes.
           ensure_parent env (os w) (path_join (local_repo_path env) f) = (os w, None)"
  shows "validate_and_fix env changes w
           = (w\<lparr>log := log w @ Attempt 1 # map (\<lambda>(f, p). Skipped f) changes\<rparr>, Inr True)"
proof -
  have os: "os (emit (Attempt 1) w) = os w" by (simp add: emit_def)
  have "run_attempt env 0 changes w
          = (w\<lparr>log := log w @ Attempt 1 # map (\<lambda>(f, p). Skipped f) changes\<rparr>, Inr [])"
    unfolding run_attempt_def
    using process_entries_skips [of changes env "emit (Attempt (0 + 1)) w" "[]"] assms(2,3)
    by (simp add: emit_def)
  with assms(1) show ?thesis
    by (simp add: validate_and_fix_def attempt_loop.simps [of _ 3 0])
qed

text \<open>An integer, a list and a dict without the key: the session succeeds and does nothing.\<close>

theorem skipped_entries_succeed_witness:
  "snd (validate_and_fix env_no_ruff
          [(''a.py'', JInt 5), (''b.py'', JList [JStr ''x'']), (''c.py'', JDict [(''path'', JStr ''c.py'')])]
          (world_with [])) = Inr True
   \<and> log (fst (validate_and_fix env_no_ruff
          [(''a.py'', JInt 5), (''b.py'', JList [JStr ''x'']), (''c.py'', JDict [(''path'', JStr ''c.py'')])]
          (world_with [])))
       = [Attempt 1, Skipped ''a.py'', Skipped ''b.py'', Skipped ''c.py'']
   \<and> os (fst (validate_and_fix env_no_ruff
          [(''a.py'', JInt 5), (''b.py'', JList [JStr ''x'']), (''c.py'', JDict [(''path'', JStr ''c.py'')])]
          (world_with []))) = disk_with []"
proof -
  let ?c = "[(''a.py'', JInt 5), (''b.py'', JList [JStr ''x'']), (''c.py'', JDict [(''path'', JStr ''c.py'')])]"
  have h1: "?c \<noteq> []" by simp
  have h2: "\<forall>(f, p) \<in> set ?c. \<forall>s. payload_shape p \<noteq> Content s"
    by (simp add: payload_shape_def)
  have pj: "path_join (local_repo_path env_no_ruff) ''a.py'' = ''/w/a.py''"
    "path_join (local_repo_path env_no_ruff) ''b.py'' = ''/w/b.py''"
    "path_join (local_repo_path env_no_ruff) ''c.py'' = ''/w/c.py''"
    by code_simp+
  have dn: "dirname ''/w/a.py'' = ''/w''" "dirname ''/w/b.py'' = ''/w''" "dirname ''/w/c.py'' = ''/w''"
    by code_simp+
  have mk: "makedirs env_no_ruff (os (world_with [])) ''/w'' = (os (world_with []), None)"
    by (simp add: env_no_ruff_def disk_makedirs_def world_with_def disk_with_def)
  have h3: "\<forall>(f, p) \<in> set ?c.
           ensure_parent env_no_ruff (os (world_with [])) (path_join (local_repo_path env_no_ruff) f)
             = (os (world_with []), None)"
    by (simp add: pj ensure_parent_def dn mk)
  from skipped_entries_succeed [OF h1 h2 h3] show ?thesis
    by (simp add: world_with_def)
qed

section \<open>The retry loop\<close>

lemma session_state_raised:
  "session_state env changes w k = (w', Inl e) \<Longrightarrow> session_state env changes w (k + j) = (w', Inl e)"
  by (induction j) auto

lemma attempt_result_raised:
  assumes "session_state env changes w k = (w', Inl e)" and "k \<le> r"
  shows "attempt_result env changes w r = Inl e"
proof -
  from assms(2) obtain j where "r = k + j" by (auto simp: le_iff_add)
  with session_state_raised [OF assms(1), of j] show ?thesis
    by (simp add: attempt_result_def)
qed

lemma attempt_result_failures:
  assumes "attempt_result env changes w r = Inr errs"
  shows "errs = failures_of (attempt_events env changes w r)"
proof (cases "session_state env changes w r")
  case (Pair w' res)
  show ?thesis
  proof (cases res)
    case (Inl e)
    with Pair assms show ?thesis by (simp add: attempt_result_def)
  next
    case (Inr c)
    with Pair assms have "snd (run_attempt env r c w') = Inr errs"
      by (simp add: attempt_result_def)
    from run_attempt_failures [OF this] Pair Inr show ?thesis
      by (simp add: attempt_events_def)
  qed
qed

lemma attempt_loop_attempts:
  "attempts (fst (attempt_loop env N k c w)) \<le> attempts w + (N - k)
   \<and> (snd (attempt_loop env N k c w) = Inr False
        \<longrightarrow> attempts (fst (attempt_loop env N k c w)) = attempts w + (N - k))"
proof (induction env N k c w rule: attempt_loop.induct)
  case (1 env N k c w)
  show ?case
  proof (cases "k < N")
    case False
    then show ?thesis by (simp add: attempt_loop.simps [of env N k])
  next
    case True
    obtain w1 res where ra: "run_attempt env k c w = (w1, res)" by (cases "run_attempt env k c w")
    have w1: "attempts w1 = Suc (attempts w)"
      using run_attempt_attempts [of env k c w] ra by simp
    show ?thesis
    proof (cases res)
      case (Inl e)
      with True ra have "attempt_loop env N k c w = (w1, Inl e)"
        by (simp add: attempt_loop.simps [of env N k])
      with w1 True show ?thesis by simp
    next
      case (Inr errs)
      show ?thesis
      proof (cases "errs = []")
        case empty: True
        with \<open>k < N\<close> ra Inr have "attempt_loop env N k c w = (w1, Inr True)"
          by (simp add: attempt_loop.simps [of env N k])
        with w1 \<open>k < N\<close> show ?thesis by simp
      next
        case nonempty: False
        show ?thesis
        proof (cases "N \<le> k + 1")
          case last: True
          with \<open>k < N\<close> have N: "N = Suc k" by simp
          have "attempt_loop env N k c w = (w1, Inr False)"
            using \<open>k < N\<close> nonempty ra Inr last by (simp add: attempt_loop.simps [of env N k])
          with w1 show ?thesis by (simp add: N)
        next
          case more: False
          obtain w2 res2 where rf: "request_fixes env (k + 1) c w1 errs = (w2, res2)"
            by (cases "request_fixes env (k + 1) c w1 errs")
          have w2: "attempts w2 = attempts w1"
            using request_fixes_attempts [of env "k + 1" c w1 errs] rf by simp
          show ?thesis
          proof (cases res2)
            case (Inl e)
            with \<open>k < N\<close> nonempty more ra Inr rf have "attempt_loop env N k c w = (w2, Inl e)"
              by (simp add: attempt_loop.simps [of env N k])
            with w1 w2 more show ?thesis by simp
          next
            case c': (Inr c')
            have unfold: "attempt_loop env N k c w = attempt_loop env N (k + 1) c' w2"
              using \<open>k < N\<close> nonempty more ra Inr rf c' by (simp add: attempt_loop.simps [of env N k])
            from "1.IH" [OF \<open>k < N\<close> ra [symmetric] Inr nonempty more rf [symmetric] c']
            have "attempts (fst (attempt_loop env N (k + 1) c' w2)) \<le> attempts w2 + (N - (k + 1))
              \<and> (snd (attempt_loop env N (k + 1) c' w2) = Inr False
                  \<longrightarrow> attempts (fst (attempt_loop env N (k + 1) c' w2)) = attempts w2 + (N - (k + 1)))" .
            with unfold w1 w2 more show ?thesis by auto
          qed
        qed
      qed
    qed
  qed
qed

lemma attempt_loop_result:
  assumes "k \<le> N" and "session_state env changes w k = (w', Inr c)"
  shows "(snd (attempt_loop env N k c w') = Inr True
            \<longleftrightarrow> (\<exists>r. k \<le> r \<and> r < N \<and> attempt_result env changes w r = Inr []))
       \<and> (snd (attempt_loop env N k c w') = Inr False
            \<longleftrightarrow> (\<forall>r. k \<le> r \<and> r < N
                   \<longrightarrow> (\<exists>errs. errs \<noteq> [] \<and> attempt_result env changes w r = Inr errs)))
       \<and> (\<forall>e. snd (attempt_loop env N k c w') = Inl e
            \<longrightarrow> (\<exists>r. k \<le> r \<and> r < N \<and> attempt_result env changes w r = Inl e))"
  using assms
proof (induction "N - k" arbitrary: k c w')
  case 0
  then have "\<not> k < N" by simp
  then show ?case by (auto simp: attempt_loop.simps [of env N k])
next
  case (Suc d)
  then have kN: "k < N" by simp
  obtain w1 res where ra: "run_attempt env k c w' = (w1, res)" by (cases "run_attempt env k c w'")
  have rk: "attempt_result env changes w k = res"
    using Suc.prems(2) ra by (simp add: attempt_result_def)
  show ?case
  proof (cases res)
    case (Inl e)
    with kN ra have loop: "attempt_loop env N k c w' = (w1, Inl e)"
      by (simp add: attempt_loop.simps [of env N k])
    have "session_state env changes w (Suc k) = (w1, Inl e)"
      using Suc.prems(2) ra Inl by simp
    then have later: "attempt_result env changes w r = Inl e" if "Suc k \<le> r" for r
      using that by (rule attempt_result_raised)
    have all: "attempt_result env changes w r = Inl e" if "k \<le> r" for r
      using that later [of r] rk Inl by (cases "r = k") auto
    from loop all kN show ?thesis by auto
  next
    case (Inr errs)
    show ?thesis
    proof (cases "errs = []")
      case True
      with kN ra Inr have loop: "attempt_loop env N k c w' = (w1, Inr True)"
        by (simp add: attempt_loop.simps [of env N k])
      from rk Inr True have "attempt_result env changes w k = Inr []" by simp
      with loop kN show ?thesis by auto
    next
      case nonempty: False
      have rk': "attempt_result env changes w k = Inr errs" using rk Inr by simp
      show ?thesis
      proof (cases "N \<le> k + 1")
        case True
        with kN nonempty ra Inr have loop: "attempt_loop env N k c w' = (w1, Inr False)"
          by (simp add: attempt_loop.simps [of env N k])
        have only: "attempt_result env changes w r = Inr errs" if "k \<le> r" "r < N" for r
        proof -
          from that True have "r = k" by simp
          with rk' show ?thesis by simp
        qed
        have no_pass: "\<not> (\<exists>r. k \<le> r \<and> r < N \<and> attempt_result env changes w r = Inr [])"
          using only nonempty by fastforce
        have fail: "\<forall>r. k \<le> r \<and> r < N
                   \<longrightarrow> (\<exists>errs. errs \<noteq> [] \<and> attempt_result env changes w r = Inr errs)"
          using only nonempty by blast
        from loop no_pass fail show ?thesis by simp
      next
        case False
        then have SkN: "Suc k < N" by simp
        obtain w2 res2 where rf: "request_fixes env (k + 1) c w1 errs = (w2, res2)"
          by (cases "request_fixes env (k + 1) c w1 errs")
        have next_state: "session_state env changes w (Suc k) = (w2, res2)"
          using Suc.prems(2) ra Inr rf by simp
        show ?thesis
        proof (cases res2)
          case (Inl e)
          with kN nonempty False ra Inr rf have loop: "attempt_loop env N k c w' = (w2, Inl e)"
            by (simp add: attempt_loop.simps [of env N k])
          from next_state Inl have later: "attempt_result env changes w r = Inl e" if "Suc k \<le> r" for r
            using that attempt_result_raised by blast
          have no_pass: "\<not> (\<exists>r. k \<le> r \<and> r < N \<and> attempt_result env changes w r = Inr [])"
          proof
            assume "\<exists>r. k \<le> r \<and> r < N \<and> attempt_result env changes w r = Inr []"
            then obtain r where r: "k \<le> r" "attempt_result env changes w r = Inr []" by blast
            show False
            proof (cases "r = k")
              case True
              with r rk' nonempty show False by simp
            next
              case False
              with r have "Suc k \<le> r" by simp
              from later [OF this] r show False by simp
            qed
          qed
          have no_fail: "\<not> (\<forall>r. k \<le> r \<and> r < N
                   \<longrightarrow> (\<exists>errs. errs \<noteq> [] \<and> attempt_result env changes w r = Inr errs))"
          proof
            assume "\<forall>r. k \<le> r \<and> r < N
                   \<longrightarrow> (\<exists>errs. errs \<noteq> [] \<and> attempt_result env changes w r = Inr errs)"
            with SkN obtain errs' where "attempt_result env changes w (Suc k) = Inr errs'"
              by (meson Suc_leD le_refl)
            with later [of "Suc k"] show False by simp
          qed
          have raised: "\<exists>r. k \<le> r \<and> r < N \<and> attempt_result env changes w r = Inl e"
            using later [of "Suc k"] SkN by (intro exI [of _ "Suc k"]) simp
          from loop no_pass no_fail raised show ?thesis by simp
        next
          case c': (Inr c')
          have unfold: "attempt_loop env N k c w' = attempt_loop env N (Suc k) c' w2"
            using kN nonempty False ra Inr rf c' by (simp add: attempt_loop.simps [of env N k])
          have d: "d = N - Suc k" using Suc.hyps(2) by simp
          have le: "Suc k \<le> N" using kN by simp
          from next_state c' have ns: "session_state env changes w (Suc k) = (w2, Inr c')" by simp
          note ih = Suc.hyps(1) [OF d le ns]
          have shift_ex: "(\<exists>r. k \<le> r \<and> r < N \<and> P r) \<longleftrightarrow> (\<exists>r. Suc k \<le> r \<and> r < N \<and> P r)"
            if "\<not> P k" for P
            using that by (metis Suc_leD Suc_leI le_neq_implies_less)
          have shift_all: "(\<forall>r. k \<le> r \<and> r < N \<longrightarrow> P r) \<longleftrightarrow> (\<forall>r. Suc k \<le> r \<and> r < N \<longrightarrow> P r)"
            if "P k" for P
            using that by (metis Suc_leD Suc_leI le_neq_implies_less)
          have t: "(\<exists>r. k \<le> r \<and> r < N \<and> attempt_result env changes w r = Inr [])
                \<longleftrightarrow> (\<exists>r. Suc k \<le> r \<and> r < N \<and> attempt_result env changes w r = Inr [])"
            using shift_ex [of "\<lambda>r. attempt_result env changes w r = Inr []"] rk' nonempty by simp
          have f: "(\<forall>r. k \<le> r \<and> r < N
                   \<longrightarrow> (\<exists>errs. errs \<noteq> [] \<and> attempt_result env changes w r = Inr errs))
                \<longleftrightarrow> (\<forall>r. Suc k \<le> r \<and> r < N
                   \<longrightarrow> (\<exists>errs. errs \<noteq> [] \<and> attempt_result env changes w r = Inr errs))"
            using shift_all [of "\<lambda>r. \<exists>errs. errs \<noteq> [] \<and> attempt_result env changes w r = Inr errs"]
              rk' nonempty by simp
          have x: "\<exists>r. k \<le> r \<and> r < N \<and> attempt_result env changes w r = Inl e"
            if "\<exists>r. Suc k \<le> r \<and> r < N \<and> attempt_result env changes w r = Inl e" for e
            using that by (meson Suc_leD)
          from ih unfold t f x show ?thesis by simp
        qed
      qed
    qed
  qed
qed

text \<open>
  Claim C3, as amended. For a non-empty change set \<^verbatim>\<open>validate_and_fix\<close> is the loop
  with a budget of three attempts. For every budget \<open>N\<close> the loop makes at most \<open>N\<close>
  attempts and ends in one of three ways.
  \<^item> It returns true: exactly when some attempt \<open>r \<le> N\<close> completes with an empty failure
    list.
  \<^item> It returns false: exactly when each of the \<open>N\<close> attempts completes with a failure
    list that is not empty; it has then made exactly \<open>N\<close> attempts.
  \<^item> An exception leaves it, raised in some attempt \<open>r \<le> N\<close> (by \<^verbatim>\<open>os.makedirs\<close>, a
    read, a write or \<^verbatim>\<open>index.add\<close>) or in the request before it (by a read or by the
    change producer); no boolean is returned.

  The failure list of a completed attempt is what its log records as failures: the
  patches that did not apply and the files that \<^verbatim>\<open>check_code\<close> rejected. It is empty
  exactly when the attempt logged neither; entries skipped for their payload shape are
  neither. The loop is a total function: it ends whenever the calls it makes return.
\<close>

theorem validate_and_fix_rounds:
  assumes "changes \<noteq> []"
  shows "validate_and_fix env changes w = attempt_loop env 3 0 changes w
       \<and> (\<forall>N. attempts (fst (attempt_loop env N 0 changes w)) \<le> attempts w + N
              \<and> (snd (attempt_loop env N 0 changes w) = Inr True
                    \<longleftrightarrow> (\<exists>r<N. attempt_result env changes w r = Inr []))
              \<and> (snd (attempt_loop env N 0 changes w) = Inr False
                    \<longleftrightarrow> (\<forall>r<N. \<exists>errs. errs \<noteq> [] \<and> attempt_result env changes w r = Inr errs))
              \<and> (snd (attempt_loop env N 0 changes w) = Inr False
                    \<longrightarrow> attempts (fst (attempt_loop env N 0 changes w)) = attempts w + N)
              \<and> (\<forall>e. snd (attempt_loop env N 0 changes w) = Inl e
                    \<longrightarrow> (\<exists>r<N. attempt_result env changes w r = Inl e)))
       \<and> (\<forall>r errs. attempt_result env changes w r = Inr errs
              \<longrightarrow> errs = failures_of (attempt_events env changes w r)
                \<and> (errs = [] \<longleftrightarrow> (\<forall>e \<in> set (attempt_events env changes w r). \<not> is_failure e)))"
proof -
  have v: "validate_and_fix env changes w = attempt_loop env 3 0 changes w"
    using assms by (simp add: validate_and_fix_def)
  have loop: "attempts (fst (attempt_loop env N 0 changes w)) \<le> attempts w + N
              \<and> (snd (attempt_loop env N 0 changes w) = Inr True
                    \<longleftrightarrow> (\<exists>r<N. attempt_result env changes w r = Inr []))
              \<and> (snd (attempt_loop env N 0 changes w) = Inr False
                    \<longleftrightarrow> (\<forall>r<N. \<exists>errs. errs \<noteq> [] \<and> attempt_result env changes w r = Inr errs))
              \<and> (snd (attempt_loop env N 0 changes w) = Inr False
                    \<longrightarrow> attempts (fst (attempt_loop env N 0 changes w)) = attempts w + N)
              \<and> (\<forall>e. snd (attempt_loop env N 0 changes w) = Inl e
                    \<longrightarrow> (\<exists>r<N. attempt_result env changes w r = Inl e))" for N
    using attempt_loop_attempts [of env N 0 changes w]
      attempt_loop_result [of 0 N env changes w w changes]
    by simp
  have events: "errs = failures_of (attempt_events env changes w r)
                \<and> (errs = [] \<longleftrightarrow> (\<forall>e \<in> set (attempt_events env changes w r). \<not> is_failure e))"
    if "attempt_result env changes w r = Inr errs" for r errs
    using attempt_result_failures [OF that] failures_of_Nil_iff by simp
  from v loop events show ?thesis by blast
qed

text \<open>A session that succeeds in its second attempt.\<close>

theorem validate_and_fix_rounds_witness:
  "two_files \<noteq> []
   \<and> snd (validate_and_fix env_no_ruff two_files (world_with [])) = Inr True
   \<and> attempts (fst (validate_and_fix env_no_ruff two_files (world_with []))) = 2
   \<and> (\<exists>r<3. attempt_result env_no_ruff two_files (world_with []) r = Inr [])"
proof -
  have ne: "two_files \<noteq> []" by (simp add: two_files_def)
  have ok: "snd (validate_and_fix env_no_ruff two_files (world_with [])) = Inr True" by code_simp
  have n: "attempts (fst (validate_and_fix env_no_ruff two_files (world_with []))) = 2" by code_simp
  from validate_and_fix_rounds [OF ne, of env_no_ruff "world_with []"] ok
  have "\<exists>r<3. attempt_result env_no_ruff two_files (world_with []) r = Inr []" by metis
  with ne ok n show ?thesis by blast
qed

text \<open>
  Claim C3 as stated has every session end with a boolean that is true exactly when every
  file's validation result is Pass. Three sessions on a workspace \<^verbatim>\<open>/w\<close>: in the first,
  the entry \<^verbatim>\<open>d\<close> is written as a file, and creating the parent directory of
  \<^verbatim>\<open>d/a.txt\<close> then raises, so that no boolean is returned. In the other two
  \<^verbatim>\<open>check_code\<close> is never called: one returns true although its only file has no
  validation result (the payload is an integer and the entry is skipped), the other
  returns false after three attempts although no validation result is a failure (the
  patch never applies).
\<close>

theorem validate_and_fix_rounds_counterexample:
  "snd (validate_and_fix env_no_ruff [(''d'', JStr ''x''), (''d/a.txt'', JStr ''y'')] (world_with []))
     = Inl (Other_Error ''[Errno 17] File exists: /w/d'')
   \<and> log (fst (validate_and_fix env_no_ruff [(''d'', JStr ''x''), (''d/a.txt'', JStr ''y'')] (world_with [])))
       = [Attempt 1, Wrote ''d'', Checked ''d'' None]
   \<and> snd (validate_and_fix env_no_ruff [(''a.py'', JInt 5)] (world_with [])) = Inr True
   \<and> log (fst (validate_and_fix env_no_ruff [(''a.py'', JInt 5)] (world_with [])))
       = [Attempt 1, Skipped ''a.py'']
   \<and> snd (validate_and_fix env_silent
        [(''a.txt'', JStr ''<<<<<< SEARCH\<newline>x\<newline>======\<newline>y\<newline>>>>>>> REPLACE'')]
        (world_with [(''/w/a.txt'', ''hello'')])) = Inr False
   \<and> log (fst (validate_and_fix env_silent
        [(''a.txt'', JStr ''<<<<<< SEARCH\<newline>x\<newline>======\<newline>y\<newline>>>>>>> REPLACE'')]
        (world_with [(''/w/a.txt'', ''hello'')])))
       = [Attempt 1, Diff_Error ''a.txt'' ''Search block not found in content:\<newline>x'',
          Requested [''a.txt''],
          Attempt 2, Diff_Error ''a.txt'' ''Search block not found in content:\<newline>x'',
          Requested [''a.txt''],
          Attempt 3, Diff_Error ''a.txt'' ''Search block not found in content:\<newline>x'']"
  by code_simp

section \<open>Files that passed are processed again\<close>

text \<open>The change producer is asked about the files of the failure list.\<close>

lemma read_broken_keys:
  "read_broken env changes fs d errs = Inr broken \<Longrightarrow> fst ` set broken = fst ` set d \<union> fst ` set errs"
proof (induction errs arbitrary: d)
  case Nil
  then show ?case by simp
next
  case (Cons x errs)
  obtain fname err where x: "x = (fname, err)" by (cases x)
  show ?case
  proof (cases "path_exists env fs (path_join (local_repo_path env) fname)")
    case True
    with Cons.prems x obtain content where
      "read_broken env changes fs (AList.update fname (JStr content) d) errs = Inr broken"
      by (auto simp: Let_def split: sum.splits)
    from Cons.IH [OF this] show ?thesis by (auto simp: x dom_update)
  next
    case False
    with Cons.prems x have
      "read_broken env changes fs (AList.update fname (dict_get changes fname (JStr '''')) d) errs
         = Inr broken"
      by (simp add: Let_def)
    from Cons.IH [OF this] show ?thesis by (auto simp: x dom_update)
  qed
qed

text \<open>
  Claim C5: a file that passed validation in some attempt is not written or validated
  again in a later attempt of the session. The code does not keep to this: every attempt
  iterates over the whole change set. Two sessions, each with a patch for an existing file
  next to a Python file that fails in the first attempt and is repaired by the producer.
  \<^item> \<^verbatim>\<open>notes.txt\<close> passes in the first attempt. The second attempt applies its patch
    once more to the patched file, writes and validates it again, and the session
    returns true with \<^verbatim>\<open>line2_modified_modified\<close> on disk.
  \<^item> \<^verbatim>\<open>greet.txt\<close> passes in the first attempt. In the second and third attempts its
    patch no longer applies, the file that had passed is on the failure list, and the
    session returns false.
\<close>

theorem reprocessing_of_passed_files:
  "snd (validate_and_fix env_no_ruff
     [(''notes.txt'', JStr ''<<<<<< SEARCH\<newline>line2\<newline>======\<newline>line2_modified\<newline>>>>>>> REPLACE''),
      (''b.py'', JStr ''def bad_syntax('')]
     (world_with [(''/w/notes.txt'', ''line1\<newline>line2\<newline>line3\<newline>'')])) = Inr True
   \<and> log (fst (validate_and_fix env_no_ruff
     [(''notes.txt'', JStr ''<<<<<< SEARCH\<newline>line2\<newline>======\<newline>line2_modified\<newline>>>>>>> REPLACE''),
      (''b.py'', JStr ''def bad_syntax('')]
     (world_with [(''/w/notes.txt'', ''line1\<newline>line2\<newline>line3\<newline>'')])))
      = [Attempt 1, Wrote ''notes.txt'', Checked ''notes.txt'' None,
         Wrote ''b.py'', Checked ''b.py'' (Some ''SyntaxError in /w/b.py: unexpected EOF''),
         Requested [''b.py''],
         Attempt 2, Wrote ''notes.txt'', Checked ''notes.txt'' None,
         Wrote ''b.py'', Checked ''b.py'' None]
   \<and> files (os (fst (validate_and_fix env_no_ruff
     [(''notes.txt'', JStr ''<<<<<< SEARCH\<newline>line2\<newline>======\<newline>line2_modified\<newline>>>>>>> REPLACE''),
      (''b.py'', JStr ''def bad_syntax('')]
     (world_with [(''/w/notes.txt'', ''line1\<newline>line2\<newline>line3\<newline>'')])))) ''/w/notes.txt''
      = Some ''line1\<newline>line2_modified_modified\<newline>line3\<newline>''
   \<and> snd (validate_and_fix env_no_ruff
     [(''greet.txt'', JStr ''<<<<<< SEARCH\<newline>Workd\<newline>======\<newline>World\<newline>>>>>>> REPLACE''),
      (''b.py'', JStr ''def bad_syntax('')]
     (world_with [(''/w/greet.txt'', ''Hello Workd\<newline>'')])) = Inr False
   \<and> log (fst (validate_and_fix env_no_ruff
     [(''greet.txt'', JStr ''<<<<<< SEARCH\<newline>Workd\<newline>======\<newline>World\<newline>>>>>>> REPLACE''),
      (''b.py'', JStr ''def bad_syntax('')]
     (world_with [(''/w/greet.txt'', ''Hello Workd\<newline>'')])))
      = [Attempt 1, Wrote ''greet.txt'', Checked ''greet.txt'' None,
         Wrote ''b.py'', Checked ''b.py'' (Some ''SyntaxError in /w/b.py: unexpected EOF''),
         Requested [''b.py''],
         Attempt 2, Diff_Error ''greet.txt'' ''Search block not found in content:\<newline>Workd'',
         Wrote ''b.py'', Checked ''b.py'' None,
         Requested [''greet.txt''],
         Attempt 3, Diff_Error ''greet.txt'' ''Search block not found in content:\<newline>Workd'',
         Wrote ''b.py'', Checked ''b.py'' None]"
  by code_simp

end
